theory Spec2Isabelle
  imports Complex_Main "HOL-Library.Word" "HOL-Library.Sublist"
begin

unbundle bit_operations_syntax

section \<open>Game Boy printer client: firmware byte-stream parser and image reconstruction\<close>

text \<open>
  A shallow embedding of \<^verbatim>\<open>js/printer.js\<close>. The class \<^verbatim>\<open>GameBoyPrinter\<close> becomes a
  record of its fields, each method a function from the record to the updated record;
  a method that can throw returns a sum, the exception with the record as the throw
  leaves it, or the updated record.
  Bytes delivered by the transport (elements of a \<^verbatim>\<open>Uint8Array\<close>) are 8-bit words;
  lengths, indices and counters are natural numbers. Status text, the console log and
  the DOM nodes around a canvas are not part of the model; the canvases appended to the
  container are.
\<close>

subsection \<open>Constants\<close>

type_synonym byte = "8 word"

abbreviation INIT :: byte where "INIT \<equiv> 0x01"
abbreviation PRINT :: byte where "PRINT \<equiv> 0x02"
abbreviation DATA :: byte where "DATA \<equiv> 0x04"
abbreviation BREAK :: byte where "BREAK \<equiv> 0x08"
abbreviation INQUIRY :: byte where "INQUIRY \<equiv> 0x0F"

datatype ParserState =
  WAIT_START | WAIT_COMMAND | WAIT_COMPRESSION | WAIT_LEN_LOW | WAIT_LEN_HIGH | READ_DATA

definition PALETTE :: "byte list list" where
  "PALETTE = [[255, 255, 255], [170, 170, 170], [85, 85, 85], [0, 0, 0]]"

subsection \<open>decompressRLE\<close>

text \<open>
  \<^verbatim>\<open>data[k] || 0\<close>: an index past the end reads \<^verbatim>\<open>undefined\<close>, which \<^verbatim>\<open>||\<close> replaces by 0
  (as it does a stored 0).
\<close>

definition read_or_zero :: "byte list \<Rightarrow> nat \<Rightarrow> byte" where
  "read_or_zero data k = (if k < length data then data ! k else 0)"

text \<open>
  The inner loop of a literal run,
  \<^verbatim>\<open>for (let j = 0; j < count && i < data.length; j++) result.push(data[i++])\<close>,
  with the first argument counting the iterations that remain (\<^verbatim>\<open>count - j\<close>).
  It returns the index reached and the extended result.
\<close>

fun copy_literal :: "nat \<Rightarrow> byte list \<Rightarrow> nat \<Rightarrow> byte list \<Rightarrow> nat \<times> byte list" where
  "copy_literal 0 data i result = (i, result)"
| "copy_literal (Suc n) data i result =
     (if i < length data then copy_literal n data (i + 1) (result @ [data ! i])
      else (i, result))"

lemma copy_literal_index: "i \<le> fst (copy_literal n data i result)"
proof (induction n arbitrary: i result)
  case 0
  show ?case by simp
next
  case (Suc n)
  have "i + 1 \<le> fst (copy_literal n data (i + 1) (result @ [data ! i]))"
    by (rule Suc.IH)
  then show ?case by simp
qed

text \<open>The outer \<^verbatim>\<open>while (i < data.length)\<close> loop, on the index and the result so far.\<close>

function decompress_loop :: "byte list \<Rightarrow> nat \<Rightarrow> byte list \<Rightarrow> byte list" where
  "decompress_loop data i result =
     (if i < length data then
        (let control = data ! i; i1 = i + 1 in
         if control AND 0x80 \<noteq> 0 then
           (let count = unat (control AND 0x7F) + 2;
                val = read_or_zero data i1;
                i2 = i1 + 1
            in decompress_loop data i2 (result @ replicate count val))
         else
           (let count = unat control + 1;
                r = copy_literal count data i1 result
            in decompress_loop data (fst r) (snd r)))
      else result)"
  by pat_completeness auto
termination
proof (relation "measure (\<lambda>(data, i, result). length data - i)", goal_cases)
  case 1
  show ?case by simp
next
  case (2 data i result x xa xb xc xd)
  then show ?case by simp
next
  case (3 data i result x xa xb xc)
  have "xa \<le> fst xc"
    unfolding \<open>xc = copy_literal xb data xa result\<close> by (rule copy_literal_index)
  then have "i < fst xc"
    using \<open>xa = i + 1\<close> by linarith
  then show ?case
    using \<open>i < length data\<close> by (simp add: case_prod_beta)
qed

definition decompressRLE :: "byte list \<Rightarrow> byte list" where
  "decompressRLE data = decompress_loop data 0 []"

declare decompress_loop.simps [simp del]

text \<open>
  The run-length scheme in the specification's words, by recursion on the input: a
  control byte with the high bit set repeats the next byte \<^verbatim>\<open>(c & 0x7F) + 2\<close> times,
  any other control byte copies the next \<^verbatim>\<open>c + 1\<close> bytes; bytes that are missing at the
  end of the input are absent from the output.
\<close>

fun rle_spec :: "byte list \<Rightarrow> byte list" where
  "rle_spec [] = []"
| "rle_spec (c # rest) =
     (if c AND 0x80 \<noteq> 0 then
        (case rest of [] \<Rightarrow> [] | v # rest' \<Rightarrow> replicate (unat (c AND 0x7F) + 2) v @ rle_spec rest')
      else take (unat c + 1) rest @ rle_spec (drop (unat c + 1) rest))"

text \<open>
  The input ends in a repeat control byte whose value byte is missing, and what the
  source emits for it.
\<close>

fun dangling_repeat :: "byte list \<Rightarrow> bool" where
  "dangling_repeat [] = False"
| "dangling_repeat (c # rest) =
     (if c AND 0x80 \<noteq> 0 then
        (case rest of [] \<Rightarrow> True | v # rest' \<Rightarrow> dangling_repeat rest')
      else dangling_repeat (drop (unat c + 1) rest))"

fun zero_fill :: "byte list \<Rightarrow> byte list" where
  "zero_fill [] = []"
| "zero_fill (c # rest) =
     (if c AND 0x80 \<noteq> 0 then
        (case rest of [] \<Rightarrow> replicate (unat (c AND 0x7F) + 2) 0 | v # rest' \<Rightarrow> zero_fill rest')
      else zero_fill (drop (unat c + 1) rest))"


subsection \<open>Image reconstruction: decodeTile and renderImage\<close>

text \<open>
  The colour index of one pixel, \<^verbatim>\<open>((byte1 >> bit) & 1) | (((byte2 >> bit) & 1) << 1)\<close>.
  The operands are bytes and the result is below 4, so the 32-bit operations of the
  source agree with the same operations on 8-bit words.
\<close>

definition colorIndex :: "byte \<Rightarrow> byte \<Rightarrow> nat \<Rightarrow> nat" where
  "colorIndex byte1 byte2 bitpos =
     unat ((drop_bit bitpos byte1 AND 1) OR push_bit 1 (drop_bit bitpos byte2 AND 1))"

text \<open>
  The body of the column loop: the four stores into the RGBA array. A store past the
  end of a typed array is ignored, as \<open>list_update\<close> ignores it.
\<close>

definition plot :: "byte \<Rightarrow> byte \<Rightarrow> nat \<Rightarrow> nat \<Rightarrow> nat \<Rightarrow> nat \<Rightarrow> byte list \<Rightarrow> nat \<Rightarrow> byte list" where
  "plot byte1 byte2 imageWidth startX startY row pixels col =
     (let bitpos = 7 - col;
          color = PALETTE ! colorIndex byte1 byte2 bitpos;
          x = startX + col;
          y = startY + row;
          pixelOffset = (y * imageWidth + x) * 4
      in pixels[pixelOffset := color ! 0,
                pixelOffset + 1 := color ! 1,
                pixelOffset + 2 := color ! 2,
                pixelOffset + 3 := 255])"

text \<open>The body of the row loop: two bytes of the tile, then the eight columns.\<close>

definition decodeRow :: "byte list \<Rightarrow> nat \<Rightarrow> nat \<Rightarrow> nat \<Rightarrow> nat \<Rightarrow> byte list \<Rightarrow> nat \<Rightarrow> byte list" where
  "decodeRow data offset imageWidth startX startY pixels row =
     (let byte1 = read_or_zero data (offset + row * 2);
          byte2 = read_or_zero data (offset + row * 2 + 1)
      in foldl (plot byte1 byte2 imageWidth startX startY row) pixels [0..<8])"

definition decodeTile :: "byte list \<Rightarrow> nat \<Rightarrow> byte list \<Rightarrow> nat \<Rightarrow> nat \<Rightarrow> nat \<Rightarrow> byte list" where
  "decodeTile data offset pixels imageWidth startX startY =
     foldl (decodeRow data offset imageWidth startX startY) pixels [0..<8]"

record canvas =
  width :: nat
  height :: nat
  pixels :: "byte list"

text \<open>
  The inner loop of \<^verbatim>\<open>renderImage\<close> over \<^verbatim>\<open>tileX\<close>, with its \<^verbatim>\<open>break\<close> once all tiles are
  decoded; the state is the tile index and the pixel array.
\<close>

fun tileRow :: "byte list \<Rightarrow> nat \<Rightarrow> nat \<Rightarrow> nat \<Rightarrow> nat list \<Rightarrow> nat \<times> byte list \<Rightarrow> nat \<times> byte list" where
  "tileRow data totalTiles imageWidth tileY [] st = st"
| "tileRow data totalTiles imageWidth tileY (tileX # rest) (tileIndex, px) =
     (if tileIndex \<ge> totalTiles then (tileIndex, px)
      else tileRow data totalTiles imageWidth tileY rest
             (tileIndex + 1,
              decodeTile data (tileIndex * 16) px imageWidth (tileX * 8) (tileY * 8)))"

text \<open>
  \<^verbatim>\<open>Math.floor(data.length / bytesPerTile)\<close> and \<^verbatim>\<open>Math.ceil(totalTiles / tilesPerRow)\<close>:
  the division of the source is that of real numbers (on lengths far below the range
  where a double is inexact).
\<close>

definition totalTiles_of :: "byte list \<Rightarrow> nat" where
  "totalTiles_of data = nat \<lfloor>real (length data) / 16\<rfloor>"

definition tileRows_of :: "byte list \<Rightarrow> nat" where
  "tileRows_of data = nat \<lceil>real (totalTiles_of data) / 20\<rceil>"

text \<open>
  The tile loops of \<^verbatim>\<open>renderImage\<close> on a fresh \<^verbatim>\<open>ImageData\<close> (all bytes 0): the number of
  tiles decoded and the pixels.
\<close>

definition renderTiles :: "byte list \<Rightarrow> nat \<times> byte list" where
  "renderTiles data =
     (let tilesPerRow = 20;
          totalTiles = totalTiles_of data;
          tileRows = tileRows_of data;
          width = tilesPerRow * 8;
          height = tileRows * 8
      in foldl (\<lambda>st tileY. tileRow data totalTiles width tileY [0..<tilesPerRow] st)
           (0, replicate (width * height * 4) 0) [0..<tileRows])"

text \<open>
  The exception of the source: \<^verbatim>\<open>ctx.createImageData(width, height)\<close> throws an
  \<^verbatim>\<open>IndexSizeError\<close> when the width or the height is zero, which the height is for a
  buffer of fewer than 16 bytes.
\<close>

datatype error = IndexSizeError

text \<open>
  The image computed by \<^verbatim>\<open>renderImage\<close>: the sizes, the \<^verbatim>\<open>ImageData\<close> (or the exception),
  then the tile loops.
\<close>

definition renderCanvas :: "byte list \<Rightarrow> error + canvas" where
  "renderCanvas data =
     (let w = 20 * 8;
          h = tileRows_of data * 8
      in if w = 0 \<or> h = 0 then Inl IndexSizeError
         else Inr \<lparr>width = w, height = h, pixels = snd (renderTiles data)\<rparr>)"

text \<open>
  Reading a pixel back from the RGBA array of an image of the given width, as the
  canvas lays it out: four bytes at offset \<^verbatim>\<open>(y * width + x) * 4\<close>.
\<close>

definition rgba :: "byte list \<Rightarrow> nat \<Rightarrow> nat \<Rightarrow> nat \<Rightarrow> byte list" where
  "rgba px imageWidth x y =
     (let pixelOffset = (y * imageWidth + x) * 4
      in [px ! pixelOffset, px ! (pixelOffset + 1), px ! (pixelOffset + 2), px ! (pixelOffset + 3)])"

subsection \<open>The printer object\<close>

record printer =
  printData :: "byte list"
  totalBytesReceived :: nat
  imageCount :: nat
  parserState :: ParserState
  currentCommand :: byte
  currentCompression :: byte
  currentLength :: nat
  currentDataIndex :: nat
  currentPacketData :: "byte list"
  lastDataTime :: int
  recentBytes :: "byte list"
  canvases :: "canvas list"

text \<open>The constructor.\<close>

definition new_printer :: printer where
  "new_printer =
     \<lparr>printData = [], totalBytesReceived = 0, imageCount = 0,
      parserState = WAIT_COMMAND, currentCommand = 0, currentCompression = 0,
      currentLength = 0, currentDataIndex = 0, currentPacketData = [],
      lastDataTime = 0, recentBytes = [], canvases = []\<rparr>"

text \<open>
  \<^verbatim>\<open>renderImage\<close>: the canvas is appended to the container and counted, unless
  \<^verbatim>\<open>createImageData\<close> throws; the printer is then as it was.
\<close>

definition renderImage :: "printer \<Rightarrow> byte list \<Rightarrow> error + printer" where
  "renderImage s data =
     (case renderCanvas data of
        Inl e \<Rightarrow> Inl e
      | Inr c \<Rightarrow> Inr (s\<lparr>canvases := canvases s @ [c], imageCount := imageCount s + 1\<rparr>))"

text \<open>
  A call of a method of the printer either returns, leaving the printer in a new state
  (\<open>Inr\<close>), or throws, leaving the printer in the state reached when the exception was
  raised (\<open>Inl\<close>, with the exception). \<open>stateAfter\<close> is the printer after the call in
  either case.
\<close>

definition stateAfter :: "error \<times> printer + printer \<Rightarrow> printer" where
  "stateAfter r = (case r of Inl (e, s) \<Rightarrow> s | Inr s \<Rightarrow> s)"

definition processPacket :: "printer \<Rightarrow> printer" where
  "processPacket s =
     (if currentCommand s = INIT then s\<lparr>printData := [], currentPacketData := []\<rparr>
      else if currentCommand s = DATA then
        (if currentCompression s = 0 then
           s\<lparr>printData := printData s @ currentPacketData s\<rparr>
         else s\<lparr>printData := printData s @ decompressRLE (currentPacketData s)\<rparr>)
      else s)"

definition abortMarker :: "byte list" where
  "abortMarker = [0x41, 0x42, 0x4F, 0x52, 0x54, 0x50, 0x52, 0x49, 0x4E, 0x54]"

definition validCommands :: "byte list" where
  "validCommands = [INIT, PRINT, DATA, BREAK, INQUIRY]"

text \<open>The sliding window: \<^verbatim>\<open>push\<close>, then \<^verbatim>\<open>shift\<close> once if more than 10 bytes are held.\<close>

definition pushRecent :: "byte list \<Rightarrow> byte \<Rightarrow> byte list" where
  "pushRecent rb byte = (let rb1 = rb @ [byte] in if length rb1 > 10 then tl rb1 else rb1)"

text \<open>\<^verbatim>\<open>recentBytes.length === 10 && recentBytes.every((b, i) => b === abortMarker[i])\<close>\<close>

definition isAbort :: "byte list \<Rightarrow> bool" where
  "isAbort rb =
     (length rb = 10 \<and> list_all (\<lambda>i. rb ! i = abortMarker ! i) [0..<length rb])"

text \<open>
  The \<^verbatim>\<open>switch (this.parserState)\<close> of \<^verbatim>\<open>processFirmwareByte\<close>. The length is a
  number: the low byte, then \<^verbatim>\<open>currentLength |= (byte << 8)\<close>, which stays far below the
  32 bits of the operation. On the print marker \<^verbatim>\<open>FE\<close> an exception of \<^verbatim>\<open>renderImage\<close>
  leaves the method before \<^verbatim>\<open>this.printData = []\<close>.
\<close>

definition parseByte_call :: "printer \<Rightarrow> byte \<Rightarrow> error \<times> printer + printer" where
  "parseByte_call s byte =
     (case parserState s of
        WAIT_START \<Rightarrow> Inr s
      | WAIT_COMMAND \<Rightarrow>
          if byte = 0xFF then Inr (s\<lparr>printData := [], currentPacketData := []\<rparr>)
          else if byte = 0xFE then
            (if length (printData s) > 0 then
               (case renderImage s (printData s) of
                  Inl e \<Rightarrow> Inl (e, s)
                | Inr s1 \<Rightarrow> Inr (s1\<lparr>printData := []\<rparr>))
             else Inr s)
          else if byte = 0x88 \<or> byte = 0x33 then Inr s
          else if byte \<notin> set validCommands then Inr s
          else
            (let s1 = s\<lparr>currentCommand := byte, parserState := WAIT_COMPRESSION\<rparr>
             in if currentCommand s1 = INIT then Inr (s1\<lparr>printData := []\<rparr>) else Inr s1)
      | WAIT_COMPRESSION \<Rightarrow>
          if byte \<noteq> 0x00 \<and> byte \<noteq> 0x01 then Inr (s\<lparr>parserState := WAIT_COMMAND\<rparr>)
          else Inr (s\<lparr>currentCompression := byte, parserState := WAIT_LEN_LOW\<rparr>)
      | WAIT_LEN_LOW \<Rightarrow> Inr (s\<lparr>currentLength := unat byte, parserState := WAIT_LEN_HIGH\<rparr>)
      | WAIT_LEN_HIGH \<Rightarrow>
          (let s1 = s\<lparr>currentLength := currentLength s OR push_bit 8 (unat byte),
                       currentDataIndex := 0, currentPacketData := []\<rparr>
           in if currentLength s1 > 1000 then Inr (s1\<lparr>parserState := WAIT_COMMAND\<rparr>)
              else if currentLength s1 > 0 then Inr (s1\<lparr>parserState := READ_DATA\<rparr>)
              else Inr ((processPacket s1)\<lparr>parserState := WAIT_COMMAND\<rparr>))
      | READ_DATA \<Rightarrow>
          (let s1 = s\<lparr>currentPacketData := currentPacketData s @ [byte],
                       currentDataIndex := currentDataIndex s + 1\<rparr>
           in if currentDataIndex s1 \<ge> currentLength s1
              then Inr ((processPacket s1)\<lparr>parserState := WAIT_COMMAND\<rparr>)
              else Inr s1))"

text \<open>\<^verbatim>\<open>processFirmwareByte\<close>: the marker window and the abort check, then the \<^verbatim>\<open>switch\<close>.\<close>

definition processFirmwareByte_call :: "printer \<Rightarrow> byte \<Rightarrow> error \<times> printer + printer" where
  "processFirmwareByte_call s byte =
     (let s1 = s\<lparr>recentBytes := pushRecent (recentBytes s) byte\<rparr>
      in if isAbort (recentBytes s1) then
           Inr (s1\<lparr>printData := [], currentPacketData := [], recentBytes := [],
                  parserState := WAIT_COMMAND\<rparr>)
         else parseByte_call s1 byte)"

text \<open>The printer after the \<^verbatim>\<open>switch\<close>, and after a call of \<^verbatim>\<open>processFirmwareByte\<close>.\<close>

definition parseByte :: "printer \<Rightarrow> byte \<Rightarrow> printer" where
  "parseByte s byte = stateAfter (parseByte_call s byte)"

definition processFirmwareByte :: "printer \<Rightarrow> byte \<Rightarrow> printer" where
  "processFirmwareByte s byte = stateAfter (processFirmwareByte_call s byte)"

text \<open>
  \<^verbatim>\<open>processFirmwareByte\<close> on a byte that does not complete the abort marker: the window is
  updated and the byte goes to the \<^verbatim>\<open>switch\<close>.
\<close>

definition quietStep :: "printer \<Rightarrow> byte \<Rightarrow> printer" where
  "quietStep s b = parseByte (s\<lparr>recentBytes := pushRecent (recentBytes s) b\<rparr>) b"

text \<open>
  Feeding a sequence of bytes, one call of \<^verbatim>\<open>processFirmwareByte\<close> per byte, in order,
  each call on the printer as the call before left it.
\<close>

fun feed :: "printer \<Rightarrow> byte list \<Rightarrow> printer" where
  "feed s [] = s"
| "feed s (b # bs) = feed (processFirmwareByte s b) bs"

text \<open>
  \<^verbatim>\<open>printerLoop\<close>, the loop over the bytes of a chunk: every byte is processed and
  counted; an exception of \<^verbatim>\<open>processFirmwareByte\<close> ends the loop, the byte uncounted and
  the rest of the chunk unprocessed.
\<close>

fun chunkLoop :: "printer \<Rightarrow> byte list \<Rightarrow> error \<times> printer + printer" where
  "chunkLoop s [] = Inr s"
| "chunkLoop s (b # bs) =
     (case processFirmwareByte_call s b of
        Inl thrown \<Rightarrow> Inl thrown
      | Inr s1 \<Rightarrow> chunkLoop (s1\<lparr>totalBytesReceived := totalBytesReceived s1 + 1\<rparr>) bs)"

text \<open>
  The \<^verbatim>\<open>try\<close> block of one iteration, for a chunk that arrived at time \<open>now\<close>
  (milliseconds): the time is recorded and the bytes go through the loop.
  \<open>chunkReceived\<close> is the printer after the block, whether it ended or threw.
\<close>

definition chunkReceived_call :: "printer \<Rightarrow> int \<Rightarrow> byte list \<Rightarrow> error \<times> printer + printer" where
  "chunkReceived_call s now bytes =
     (if length bytes > 0 then chunkLoop (s\<lparr>lastDataTime := now\<rparr>) bytes else Inr s)"

definition chunkReceived :: "printer \<Rightarrow> int \<Rightarrow> byte list \<Rightarrow> printer" where
  "chunkReceived s now bytes = stateAfter (chunkReceived_call s now bytes)"

text \<open>
  The \<^verbatim>\<open>catch\<close> branch, taken at time \<open>now\<close> when the read fails or times out, or
  when the \<^verbatim>\<open>try\<close> block throws: the print timeout of 2000 ms.
\<close>

definition PRINT_TIMEOUT_MS :: int where
  "PRINT_TIMEOUT_MS = 2000"

definition readFailed :: "printer \<Rightarrow> int \<Rightarrow> printer" where
  "readFailed s now =
     (if length (printData s) > 0 \<and> lastDataTime s > 0 then
        (let timeSinceLastData = now - lastDataTime s
         in if timeSinceLastData > PRINT_TIMEOUT_MS then
              s\<lparr>printData := [], parserState := WAIT_COMMAND, currentPacketData := []\<rparr>
            else s)
      else s)"

section \<open>Run-length decompression\<close>

lemma copy_literal_eq:
  "i \<le> length data \<Longrightarrow>
   copy_literal n data i result = (min (i + n) (length data), result @ take n (drop i data))"
proof (induction n arbitrary: i result)
  case 0
  then show ?case by simp
next
  case (Suc n)
  show ?case
  proof (cases "i < length data")
    case True
    then have "copy_literal n data (i + 1) (result @ [data ! i]) =
        (min (i + 1 + n) (length data), (result @ [data ! i]) @ take n (drop (i + 1) data))"
      using Suc.IH [of "i + 1" "result @ [data ! i]"] by simp
    moreover have "drop i data = data ! i # drop (i + 1) data"
      using True by (simp add: Cons_nth_drop_Suc)
    ultimately show ?thesis using True by simp
  next
    case False
    with Suc.prems show ?thesis by simp
  qed
qed

lemma loop_done: "length data \<le> i \<Longrightarrow> decompress_loop data i result = result"
  by (simp add: decompress_loop.simps)

lemma loop_repeat:
  "i < length data \<Longrightarrow> data ! i AND 0x80 \<noteq> 0 \<Longrightarrow>
   decompress_loop data i result =
   decompress_loop data (i + 2)
     (result @ replicate (unat (data ! i AND 0x7F) + 2) (read_or_zero data (i + 1)))"
  by (subst decompress_loop.simps) (simp add: Let_def)

lemma loop_literal:
  "i < length data \<Longrightarrow> data ! i AND 0x80 = 0 \<Longrightarrow>
   decompress_loop data i result =
   decompress_loop data (min (i + 1 + (unat (data ! i) + 1)) (length data))
     (result @ take (unat (data ! i) + 1) (drop (i + 1) data))"
  by (subst decompress_loop.simps) (simp add: Let_def copy_literal_eq del: copy_literal.simps)

lemma loop_spec:
  "i \<le> length data \<Longrightarrow>
   decompress_loop data i result =
   result @ rle_spec (drop i data) @ zero_fill (drop i data)"
proof (induction "length data - i" arbitrary: i result rule: less_induct)
  case less
  show ?case
  proof (cases "i < length data")
    case False
    with less.prems show ?thesis
      by (simp add: loop_done)
  next
    case True
    then have dr: "drop i data = data ! i # drop (i + 1) data"
      by (simp add: Cons_nth_drop_Suc)
    show ?thesis
    proof (cases "data ! i AND 0x80 = 0")
      case lit: True
      let ?n = "unat (data ! i) + 1"
      let ?j = "min (i + 1 + ?n) (length data)"
      have j: "?j \<le> length data" "length data - ?j < length data - i"
        using True by auto
      have dj: "drop ?j data = drop ?n (drop (i + 1) data)"
        by (cases "i + 1 + ?n \<le> length data") (simp_all add: add.commute min_def)
      have "decompress_loop data i result =
          decompress_loop data ?j (result @ take ?n (drop (i + 1) data))"
        using True lit by (rule loop_literal)
      also have "\<dots> = (result @ take ?n (drop (i + 1) data)) @
          rle_spec (drop ?j data) @ zero_fill (drop ?j data)"
        using j(2) j(1) by (rule less.hyps)
      finally show ?thesis
        unfolding dj dr using lit by simp
    next
      case rep: False
      have step: "decompress_loop data i result =
          decompress_loop data (i + 2)
            (result @ replicate (unat (data ! i AND 0x7F) + 2) (read_or_zero data (i + 1)))"
        using True rep by (rule loop_repeat)
      show ?thesis
      proof (cases "i + 1 < length data")
        case v: True
        then have dr2: "drop (i + 1) data = data ! (i + 1) # drop (i + 2) data"
          using Cons_nth_drop_Suc [of "i + 1" data] by simp
        have "length data - (i + 2) < length data - i" "i + 2 \<le> length data"
          using v by auto
        then have "decompress_loop data (i + 2)
            (result @ replicate (unat (data ! i AND 0x7F) + 2) (read_or_zero data (i + 1))) =
          (result @ replicate (unat (data ! i AND 0x7F) + 2) (read_or_zero data (i + 1))) @
          rle_spec (drop (i + 2) data) @ zero_fill (drop (i + 2) data)"
          by (rule less.hyps)
        with step show ?thesis
          unfolding dr dr2 using rep v by (simp add: read_or_zero_def)
      next
        case nv: False
        then have "drop (i + 1) data = []" by simp
        with step show ?thesis
          unfolding dr using rep nv by (simp add: read_or_zero_def loop_done)
      qed
    qed
  qed
qed

lemma decompressRLE_spec: "decompressRLE data = rle_spec data @ zero_fill data"
  using loop_spec [of 0 data "[]"] by (simp add: decompressRLE_def)

lemma zero_fill_dangling:
  "zero_fill data =
     (if dangling_repeat data then replicate (unat (last data AND 0x7F) + 2) 0 else [])"
proof (induction data rule: zero_fill.induct)
  case 1
  show ?case by simp
next
  case (2 c rest)
  show ?case
  proof (cases "c AND 0x80 = 0")
    case True
    have "dangling_repeat (drop (unat c + 1) rest) \<Longrightarrow> drop (unat c + 1) rest \<noteq> []"
      by auto
    then have "dangling_repeat (drop (unat c + 1) rest) \<Longrightarrow>
        last (drop (unat c + 1) rest) = last (c # rest)"
      by (metis last_drop last_ConsR drop_eq_Nil not_le_imp_less list.size(3) drop_Nil)
    with True 2(2) show ?thesis by auto
  next
    case False
    show ?thesis
    proof (cases rest)
      case Nil
      with False show ?thesis by simp
    next
      case (Cons v rest')
      have "dangling_repeat rest' \<Longrightarrow> rest' \<noteq> []" by auto
      with False Cons 2(1) show ?thesis by auto
    qed
  qed
qed

lemma replicate_numeral: "replicate (numeral k) x = x # replicate (pred_numeral k) x"
  by (simp add: numeral_eq_Suc)

lemma decompressRLE_Nil: "decompressRLE [] = []"
  by (simp add: decompressRLE_spec)

lemma decompressRLE_repeat:
  "c AND 0x80 \<noteq> 0 \<Longrightarrow>
   decompressRLE (c # v # rest) = replicate (unat (c AND 0x7F) + 2) v @ decompressRLE rest"
  by (simp add: decompressRLE_spec)

lemma decompressRLE_literal:
  "c AND 0x80 = 0 \<Longrightarrow>
   decompressRLE (c # rest) = take (unat c + 1) rest @ decompressRLE (drop (unat c + 1) rest)"
  by (simp add: decompressRLE_spec)

lemma decompressRLE_well_formed: "\<not> dangling_repeat data \<Longrightarrow> decompressRLE data = rle_spec data"
  by (simp add: decompressRLE_spec zero_fill_dangling)

text \<open>
  Claim C6. \<^verbatim>\<open>decompressRLE\<close> implements the run-length scheme: the empty input gives the
  empty output; a control byte \<open>c\<close> with the high bit set, followed by a value byte,
  emits that byte \<^verbatim>\<open>(c & 0x7F) + 2\<close> times and goes on with the rest; any other control
  byte copies the next \<^verbatim>\<open>c + 1\<close> bytes and goes on after them. On every input in which
  no repeat control byte lacks its value byte the result is that of the scheme as the
  specification words it (\<open>rle_spec\<close>). The two inputs of the specification
  decompress as it says.
\<close>

theorem decompressRLE_scheme:
  "decompressRLE [] = [] \<and>
   (c AND 0x80 \<noteq> 0 \<longrightarrow>
      decompressRLE (c # v # rest) = replicate (unat (c AND 0x7F) + 2) v @ decompressRLE rest) \<and>
   (c AND 0x80 = 0 \<longrightarrow>
      decompressRLE (c # rest) = take (unat c + 1) rest @ decompressRLE (drop (unat c + 1) rest)) \<and>
   (\<not> dangling_repeat data \<longrightarrow> decompressRLE data = rle_spec data) \<and>
   decompressRLE [0x02, 0xAA, 0xBB, 0xCC] = [0xAA, 0xBB, 0xCC] \<and>
   decompressRLE [0x83, 0x7F] = [0x7F, 0x7F, 0x7F, 0x7F, 0x7F]"
proof (intro conjI impI)
  show "decompressRLE [] = []"
    by (rule decompressRLE_Nil)
  show "decompressRLE (c # v # rest) = replicate (unat (c AND 0x7F) + 2) v @ decompressRLE rest"
    if "c AND 0x80 \<noteq> 0"
    using that by (rule decompressRLE_repeat)
  show "decompressRLE (c # rest) = take (unat c + 1) rest @ decompressRLE (drop (unat c + 1) rest)"
    if "c AND 0x80 = 0"
    using that by (rule decompressRLE_literal)
  show "decompressRLE data = rle_spec data" if "\<not> dangling_repeat data"
    using that by (rule decompressRLE_well_formed)
  show "decompressRLE [0x02, 0xAA, 0xBB, 0xCC] = [0xAA, 0xBB, 0xCC]"
    by (simp add: decompressRLE_spec)
  show "decompressRLE [0x83, 0x7F] = [0x7F, 0x7F, 0x7F, 0x7F, 0x7F]"
    by (simp add: decompressRLE_spec replicate_numeral)
qed

text \<open>
  The scheme at work on a repeat run followed by a literal run, and on a literal run
  alone.
\<close>

theorem decompressRLE_scheme_witness:
  "(0x81 :: byte) AND 0x80 \<noteq> 0 \<and> (0x01 :: byte) AND 0x80 = 0 \<and>
   \<not> dangling_repeat [0x81, 0x07, 0x01, 0x05, 0x06] \<and>
   decompressRLE [0x81, 0x07, 0x01, 0x05, 0x06] = [0x07, 0x07, 0x07, 0x05, 0x06] \<and>
   decompressRLE [0x01, 0x05, 0x06] = [0x05, 0x06]"
  using decompressRLE_scheme [where c = "0x81" and v = "0x07" and rest = "[0x01, 0x05, 0x06]"
      and data = "[0x81, 0x07, 0x01, 0x05, 0x06]"]
    decompressRLE_scheme [where c = "0x01" and rest = "[0x05, 0x06]" and data = "[]"]
  by (simp add: replicate_numeral)

text \<open>
  Claim C2 as stated fails: a repeat control byte that is the last byte of the input does
  not end the run with nothing emitted. The missing value byte is read as 0
  (\<^verbatim>\<open>data[i++] || 0\<close>) and the run is emitted in full: \<^verbatim>\<open>[0x83]\<close> gives five zero bytes.
\<close>

theorem decompressRLE_missing_value_counterexample:
  "(0x83 :: byte) AND 0x80 \<noteq> 0 \<and> decompressRLE [0x83] = [0, 0, 0, 0, 0] \<and> decompressRLE [0x83] \<noteq> []"
  by (simp add: decompressRLE_spec replicate_numeral)

text \<open>
  Claim C2, amended. \<^verbatim>\<open>decompressRLE\<close> returns on every input. A literal run that extends
  past the end of the input copies the bytes that are there and stops. A repeat control
  byte \<open>c\<close> that is the last byte of the input emits \<^verbatim>\<open>(c & 0x7F) + 2\<close> zero bytes.
  In general the output is that of the scheme, followed by those zero bytes when the
  input ends in a repeat control byte without its value.
\<close>

theorem decompressRLE_truncated:
  "decompressRLE data =
     rle_spec data @
     (if dangling_repeat data then replicate (unat (last data AND 0x7F) + 2) 0 else []) \<and>
   (c AND 0x80 = 0 \<longrightarrow> length rest \<le> unat c + 1 \<longrightarrow> decompressRLE (c # rest) = rest) \<and>
   (c AND 0x80 \<noteq> 0 \<longrightarrow> decompressRLE [c] = replicate (unat (c AND 0x7F) + 2) 0)"
proof (intro conjI impI)
  show "decompressRLE data =
     rle_spec data @
     (if dangling_repeat data then replicate (unat (last data AND 0x7F) + 2) 0 else [])"
    by (simp only: decompressRLE_spec zero_fill_dangling)
  show "decompressRLE (c # rest) = rest" if "c AND 0x80 = 0" "length rest \<le> unat c + 1"
    using that by (simp add: decompressRLE_spec)
  show "decompressRLE [c] = replicate (unat (c AND 0x7F) + 2) 0" if "c AND 0x80 \<noteq> 0"
    using that by (simp add: decompressRLE_spec)
qed

text \<open>A literal run of declared length 6 with two bytes present, and a lone repeat byte.\<close>

theorem decompressRLE_truncated_witness:
  "(0x05 :: byte) AND 0x80 = 0 \<and> length [0xAA, 0xBB :: byte] \<le> unat (0x05 :: byte) + 1 \<and>
   decompressRLE [0x05, 0xAA, 0xBB] = [0xAA, 0xBB] \<and>
   (0x83 :: byte) AND 0x80 \<noteq> 0 \<and> decompressRLE [0x83] = replicate 5 0"
  using decompressRLE_truncated [of "[]" "0x05" "[0xAA, 0xBB]"]
    decompressRLE_truncated [of "[]" "0x83" "[]"]
  by simp

section \<open>The packet parser\<close>

text \<open>The printer after one byte, written out: what the calls assign, an exception apart.\<close>

lemma parseByte_eq:
  "parseByte s byte =
     (case parserState s of
        WAIT_START \<Rightarrow> s
      | WAIT_COMMAND \<Rightarrow>
          if byte = 0xFF then s\<lparr>printData := [], currentPacketData := []\<rparr>
          else if byte = 0xFE then
            (if length (printData s) > 0 then
               (case renderImage s (printData s) of
                  Inl e \<Rightarrow> s
                | Inr s1 \<Rightarrow> s1\<lparr>printData := []\<rparr>)
             else s)
          else if byte = 0x88 \<or> byte = 0x33 then s
          else if byte \<notin> set validCommands then s
          else
            (let s1 = s\<lparr>currentCommand := byte, parserState := WAIT_COMPRESSION\<rparr>
             in if currentCommand s1 = INIT then s1\<lparr>printData := []\<rparr> else s1)
      | WAIT_COMPRESSION \<Rightarrow>
          if byte \<noteq> 0x00 \<and> byte \<noteq> 0x01 then s\<lparr>parserState := WAIT_COMMAND\<rparr>
          else s\<lparr>currentCompression := byte, parserState := WAIT_LEN_LOW\<rparr>
      | WAIT_LEN_LOW \<Rightarrow> s\<lparr>currentLength := unat byte, parserState := WAIT_LEN_HIGH\<rparr>
      | WAIT_LEN_HIGH \<Rightarrow>
          (let s1 = s\<lparr>currentLength := currentLength s OR push_bit 8 (unat byte),
                       currentDataIndex := 0, currentPacketData := []\<rparr>
           in if currentLength s1 > 1000 then s1\<lparr>parserState := WAIT_COMMAND\<rparr>
              else if currentLength s1 > 0 then s1\<lparr>parserState := READ_DATA\<rparr>
              else (processPacket s1)\<lparr>parserState := WAIT_COMMAND\<rparr>)
      | READ_DATA \<Rightarrow>
          (let s1 = s\<lparr>currentPacketData := currentPacketData s @ [byte],
                       currentDataIndex := currentDataIndex s + 1\<rparr>
           in if currentDataIndex s1 \<ge> currentLength s1
              then (processPacket s1)\<lparr>parserState := WAIT_COMMAND\<rparr>
              else s1))"
  by (cases "parserState s")
    (simp_all add: parseByte_def parseByte_call_def stateAfter_def Let_def split: sum.splits)

lemma processFirmwareByte_unfold:
  "processFirmwareByte s byte =
     (let s1 = s\<lparr>recentBytes := pushRecent (recentBytes s) byte\<rparr>
      in if isAbort (recentBytes s1) then
           s1\<lparr>printData := [], currentPacketData := [], recentBytes := [],
              parserState := WAIT_COMMAND\<rparr>
         else parseByte s1 byte)"
  by (simp add: processFirmwareByte_def processFirmwareByte_call_def parseByte_def stateAfter_def
      Let_def)

text \<open>Only the print marker can make \<^verbatim>\<open>processFirmwareByte\<close> throw.\<close>

lemma call_returns:
  "byte \<noteq> 0xFE \<Longrightarrow> processFirmwareByte_call s byte = Inr (processFirmwareByte s byte)"
  by (cases "parserState (s\<lparr>recentBytes := pushRecent (recentBytes s) byte\<rparr>)")
    (simp_all add: processFirmwareByte_def processFirmwareByte_call_def parseByte_call_def
      stateAfter_def Let_def)

lemmas chunk = chunkReceived_def chunkReceived_call_def stateAfter_def call_returns

lemma isAbort_iff: "isAbort rb \<longleftrightarrow> rb = abortMarker"
proof
  assume "isAbort rb"
  then have len: "length rb = length abortMarker" and "\<forall>i<length rb. rb ! i = abortMarker ! i"
    by (simp_all add: isAbort_def list_all_iff abortMarker_def)
  then show "rb = abortMarker"
    by (simp add: list_eq_iff_nth_eq)
next
  assume "rb = abortMarker"
  then show "isAbort rb"
    by (simp add: isAbort_def list_all_iff abortMarker_def)
qed

lemma pushRecent_last: "pushRecent rb b \<noteq> [] \<and> last (pushRecent rb b) = b"
proof (cases rb)
  case Nil
  then show ?thesis by (simp add: pushRecent_def)
next
  case (Cons a as)
  then show ?thesis by (simp add: pushRecent_def Let_def)
qed

lemma abort_last_byte: "pushRecent rb b = abortMarker \<Longrightarrow> b = 0x54"
proof -
  assume "pushRecent rb b = abortMarker"
  then have "last (pushRecent rb b) = last abortMarker" by simp
  then show ?thesis
    by (simp add: pushRecent_last abortMarker_def)
qed

lemma processFirmwareByte_eq:
  "processFirmwareByte s byte =
     (if pushRecent (recentBytes s) byte = abortMarker then
        s\<lparr>printData := [], currentPacketData := [], recentBytes := [],
          parserState := WAIT_COMMAND\<rparr>
      else parseByte (s\<lparr>recentBytes := pushRecent (recentBytes s) byte\<rparr>) byte)"
  by (simp add: processFirmwareByte_unfold Let_def isAbort_iff)

lemma processFirmwareByte_quiet:
  "byte \<noteq> 0x54 \<Longrightarrow>
   processFirmwareByte s byte = parseByte (s\<lparr>recentBytes := pushRecent (recentBytes s) byte\<rparr>) byte"
  using abort_last_byte [of "recentBytes s" byte] by (auto simp add: processFirmwareByte_eq)

lemma parseByte_not_WAIT_START:
  "parserState s \<noteq> WAIT_START \<Longrightarrow> parserState (parseByte s byte) \<noteq> WAIT_START"
  by (cases "parserState s")
    (auto simp add: parseByte_eq Let_def processPacket_def renderImage_def split: sum.splits)

lemma step_not_WAIT_START:
  "parserState s \<noteq> WAIT_START \<Longrightarrow> parserState (processFirmwareByte s byte) \<noteq> WAIT_START"
  by (simp add: processFirmwareByte_eq parseByte_not_WAIT_START)

lemma feed_not_WAIT_START:
  "parserState s \<noteq> WAIT_START \<Longrightarrow> parserState (feed s bytes) \<noteq> WAIT_START"
  by (induction bytes arbitrary: s) (simp_all add: step_not_WAIT_START)

text \<open>
  The same holds of the loop over a chunk, whether it ends or throws, and of the
  \<^verbatim>\<open>catch\<close> branch.
\<close>

lemma chunkLoop_not_WAIT_START:
  "parserState s \<noteq> WAIT_START \<Longrightarrow> parserState (stateAfter (chunkLoop s bytes)) \<noteq> WAIT_START"
proof (induction bytes arbitrary: s)
  case Nil
  then show ?case by (simp add: stateAfter_def)
next
  case (Cons b bytes)
  have step: "parserState (stateAfter (processFirmwareByte_call s b)) \<noteq> WAIT_START"
    using step_not_WAIT_START [OF Cons.prems, of b] by (simp add: processFirmwareByte_def)
  show ?case
  proof (cases "processFirmwareByte_call s b")
    case (Inl thrown)
    with step show ?thesis by simp
  next
    case (Inr s1)
    with step have "parserState (s1\<lparr>totalBytesReceived := totalBytesReceived s1 + 1\<rparr>) \<noteq> WAIT_START"
      by (simp add: stateAfter_def)
    then have "parserState (stateAfter
        (chunkLoop (s1\<lparr>totalBytesReceived := totalBytesReceived s1 + 1\<rparr>) bytes)) \<noteq> WAIT_START"
      by (rule Cons.IH)
    with Inr show ?thesis by simp
  qed
qed

lemma chunkReceived_not_WAIT_START:
  "parserState s \<noteq> WAIT_START \<Longrightarrow> parserState (chunkReceived s now bytes) \<noteq> WAIT_START"
  using chunkLoop_not_WAIT_START [of "s\<lparr>lastDataTime := now\<rparr>" bytes]
  by (simp add: chunkReceived_def chunkReceived_call_def stateAfter_def)

lemma readFailed_not_WAIT_START:
  "parserState s \<noteq> WAIT_START \<Longrightarrow> parserState (readFailed s now) \<noteq> WAIT_START"
  by (simp add: readFailed_def Let_def)

lemma length_le: "unat (lo :: byte) OR push_bit 8 (unat (hi :: byte)) = unat lo + 256 * unat hi"
proof -
  have "unat lo < 2 ^ 8"
    using unsigned_less [of lo] by simp
  then have lo: "take_bit 8 (unat lo) = unat lo"
    by (simp only: take_bit_nat_eq_self)
  have "take_bit 8 (unat lo) AND push_bit 8 (unat hi) = 0"
    by (rule bit_eqI) (auto simp add: bit_simps)
  then have "take_bit 8 (unat lo) + push_bit 8 (unat hi) =
      take_bit 8 (unat lo) OR push_bit 8 (unat hi)"
    by (rule disjunctive_add_eq_or)
  then show ?thesis
    by (simp add: lo push_bit_eq_mult)
qed

lemma parseByte_bad_compression:
  "parserState s = WAIT_COMPRESSION \<Longrightarrow> byte \<noteq> 0x00 \<Longrightarrow> byte \<noteq> 0x01 \<Longrightarrow>
   parseByte s byte = s\<lparr>parserState := WAIT_COMMAND\<rparr>"
  by (simp add: parseByte_eq)

lemma parseByte_oversized:
  "parserState s = WAIT_LEN_HIGH \<Longrightarrow> 1000 < (currentLength s OR push_bit 8 (unat byte)) \<Longrightarrow>
   parseByte s byte =
     s\<lparr>currentLength := currentLength s OR push_bit 8 (unat byte), currentDataIndex := 0,
       currentPacketData := [], parserState := WAIT_COMMAND\<rparr>"
  by (simp add: parseByte_eq Let_def)

lemma step_bad_compression:
  assumes "parserState s = WAIT_COMPRESSION" "byte \<noteq> 0x00" "byte \<noteq> 0x01"
  shows "parserState (processFirmwareByte s byte) = WAIT_COMMAND"
    and "printData (processFirmwareByte s byte) \<in> {printData s, []}"
    and "canvases (processFirmwareByte s byte) = canvases s"
  using assms by (simp_all add: processFirmwareByte_eq parseByte_bad_compression)

lemma step_oversized:
  assumes "parserState s = WAIT_LEN_HIGH" "1000 < (currentLength s OR push_bit 8 (unat byte))"
  shows "parserState (processFirmwareByte s byte) = WAIT_COMMAND"
    and "printData (processFirmwareByte s byte) \<in> {printData s, []}"
    and "canvases (processFirmwareByte s byte) = canvases s"
  using assms by (simp_all add: processFirmwareByte_eq parseByte_oversized)

lemma step_length_low:
  assumes "parserState s = WAIT_LEN_LOW" "lo \<noteq> 0x54"
  shows "processFirmwareByte s lo =
      s\<lparr>recentBytes := pushRecent (recentBytes s) lo, currentLength := unat lo,
        parserState := WAIT_LEN_HIGH\<rparr>"
  using assms by (simp add: processFirmwareByte_quiet parseByte_eq)

lemmas run = processFirmwareByte_quiet parseByte_eq validCommands_def Let_def processPacket_def new_printer_def

text \<open>
  Claim C10. The state \<open>WAIT_START\<close> is unreachable: the constructor starts the parser
  in \<open>WAIT_COMMAND\<close>, no call of \<^verbatim>\<open>processFirmwareByte\<close> made in another state ends in
  \<open>WAIT_START\<close>, and so after any sequence of bytes fed to a new printer the state is one
  of the five others.
\<close>

theorem WAIT_START_unreachable:
  "parserState new_printer = WAIT_COMMAND \<and>
   (parserState s \<noteq> WAIT_START \<longrightarrow> parserState (processFirmwareByte s byte) \<noteq> WAIT_START) \<and>
   parserState (feed new_printer bytes)
     \<in> {WAIT_COMMAND, WAIT_COMPRESSION, WAIT_LEN_LOW, WAIT_LEN_HIGH, READ_DATA}"
proof (intro conjI impI)
  show "parserState new_printer = WAIT_COMMAND"
    by (simp add: new_printer_def)
  show "parserState (processFirmwareByte s byte) \<noteq> WAIT_START" if "parserState s \<noteq> WAIT_START"
    using that by (rule step_not_WAIT_START)
  have "parserState (feed new_printer bytes) \<noteq> WAIT_START"
    by (rule feed_not_WAIT_START) (simp add: new_printer_def)
  then show "parserState (feed new_printer bytes)
     \<in> {WAIT_COMMAND, WAIT_COMPRESSION, WAIT_LEN_LOW, WAIT_LEN_HIGH, READ_DATA}"
    by (cases "parserState (feed new_printer bytes)") simp_all
qed

text \<open>A new printer, one byte, and the first five bytes of a data packet.\<close>

theorem WAIT_START_unreachable_witness:
  "parserState new_printer \<noteq> WAIT_START \<and>
   parserState (processFirmwareByte new_printer 0x04) \<noteq> WAIT_START \<and>
   parserState (feed new_printer [0x04, 0x00, 0x03, 0x00, 0x11])
     \<in> {WAIT_COMMAND, WAIT_COMPRESSION, WAIT_LEN_LOW, WAIT_LEN_HIGH, READ_DATA}"
  using WAIT_START_unreachable [of new_printer "0x04" "[0x04, 0x00, 0x03, 0x00, 0x11]"]
  by (simp add: new_printer_def)

text \<open>
  Claim C5. From \<open>WAIT_COMMAND\<close> with an empty print buffer, the seven bytes
  \<^verbatim>\<open>04 00 03 00 11 22 33\<close> (data command, uncompressed, length 3, three payload bytes)
  leave the print buffer equal to \<^verbatim>\<open>11 22 33\<close> and the parser in \<open>WAIT_COMMAND\<close>,
  whatever the other fields hold.
\<close>

theorem packet_assembly:
  assumes "parserState s = WAIT_COMMAND" and "printData s = []"
  shows "printData (feed s [0x04, 0x00, 0x03, 0x00, 0x11, 0x22, 0x33]) = [0x11, 0x22, 0x33] \<and>
         parserState (feed s [0x04, 0x00, 0x03, 0x00, 0x11, 0x22, 0x33]) = WAIT_COMMAND"
  using assms
  by (simp add: processFirmwareByte_quiet parseByte_eq validCommands_def Let_def
      processPacket_def)

text \<open>The seven bytes fed to a new printer.\<close>

theorem packet_assembly_witness:
  "parserState new_printer = WAIT_COMMAND \<and> printData new_printer = [] \<and>
   printData (feed new_printer [0x04, 0x00, 0x03, 0x00, 0x11, 0x22, 0x33]) = [0x11, 0x22, 0x33] \<and>
   parserState (feed new_printer [0x04, 0x00, 0x03, 0x00, 0x11, 0x22, 0x33]) = WAIT_COMMAND"
  using packet_assembly [of new_printer] by (simp add: new_printer_def)

text \<open>
  Claim C4. Desynchronisation is recovered locally. In \<open>WAIT_COMPRESSION\<close> a byte other
  than 0 and 1, and in \<open>WAIT_LEN_HIGH\<close> a byte that makes the length exceed 1000, put the
  parser in \<open>WAIT_COMMAND\<close>; the packet is not dispatched: nothing is appended to the
  print buffer (it is unchanged, or emptied when the byte completes the abort marker)
  and no image is rendered. The length is the little-endian value of the two length
  bytes. With the length 2000 (\<^verbatim>\<open>D0 07\<close>) the parser goes from \<open>WAIT_COMMAND\<close> through
  \<open>WAIT_COMPRESSION\<close>, \<open>WAIT_LEN_LOW\<close> and \<open>WAIT_LEN_HIGH\<close> back to \<open>WAIT_COMMAND\<close>,
  never through \<open>READ_DATA\<close>.
\<close>

theorem desync_recovery:
  "(parserState s = WAIT_COMPRESSION \<and> byte \<noteq> 0x00 \<and> byte \<noteq> 0x01 \<longrightarrow>
      parserState (processFirmwareByte s byte) = WAIT_COMMAND \<and>
      printData (processFirmwareByte s byte) \<in> {printData s, []} \<and>
      canvases (processFirmwareByte s byte) = canvases s) \<and>
   (parserState s = WAIT_LEN_HIGH \<and> 1000 < (currentLength s OR push_bit 8 (unat byte)) \<longrightarrow>
      parserState (processFirmwareByte s byte) = WAIT_COMMAND \<and>
      printData (processFirmwareByte s byte) \<in> {printData s, []} \<and>
      canvases (processFirmwareByte s byte) = canvases s) \<and>
   (parserState s = WAIT_LEN_LOW \<and> lo \<noteq> 0x54 \<and> 1000 < unat lo + 256 * unat hi \<longrightarrow>
      parserState (processFirmwareByte s lo) = WAIT_LEN_HIGH \<and>
      parserState (feed s [lo, hi]) = WAIT_COMMAND \<and>
      printData (feed s [lo, hi]) \<in> {printData s, []} \<and>
      canvases (feed s [lo, hi]) = canvases s) \<and>
   (parserState s = WAIT_COMMAND \<longrightarrow>
      parserState (feed s [0x04]) = WAIT_COMPRESSION \<and>
      parserState (feed s [0x04, 0x00]) = WAIT_LEN_LOW \<and>
      parserState (feed s [0x04, 0x00, 0xD0]) = WAIT_LEN_HIGH \<and>
      parserState (feed s [0x04, 0x00, 0xD0, 0x07]) = WAIT_COMMAND \<and>
      printData (feed s [0x04, 0x00, 0xD0, 0x07]) = printData s \<and>
      canvases (feed s [0x04, 0x00, 0xD0, 0x07]) = canvases s)"
proof (intro conjI impI; (elim conjE)?)
  assume a: "parserState s = WAIT_COMPRESSION" "byte \<noteq> 0x00" "byte \<noteq> 0x01"
  show "parserState (processFirmwareByte s byte) = WAIT_COMMAND"
    using a by (rule step_bad_compression)
  show "printData (processFirmwareByte s byte) \<in> {printData s, []}"
    using a by (rule step_bad_compression)
  show "canvases (processFirmwareByte s byte) = canvases s"
    using a by (rule step_bad_compression)
next
  assume a: "parserState s = WAIT_LEN_HIGH" "1000 < (currentLength s OR push_bit 8 (unat byte))"
  show "parserState (processFirmwareByte s byte) = WAIT_COMMAND"
    using a by (rule step_oversized)
  show "printData (processFirmwareByte s byte) \<in> {printData s, []}"
    using a by (rule step_oversized)
  show "canvases (processFirmwareByte s byte) = canvases s"
    using a by (rule step_oversized)
next
  assume a: "parserState s = WAIT_LEN_LOW" "lo \<noteq> 0x54" "1000 < unat lo + 256 * unat hi"
  define s1 where "s1 = processFirmwareByte s lo"
  have s1: "s1 = s\<lparr>recentBytes := pushRecent (recentBytes s) lo, currentLength := unat lo,
        parserState := WAIT_LEN_HIGH\<rparr>"
    unfolding s1_def using a(1,2) by (rule step_length_low)
  have st: "parserState s1 = WAIT_LEN_HIGH" and pd: "printData s1 = printData s"
    and cv: "canvases s1 = canvases s"
    by (simp_all add: s1)
  have big: "1000 < (currentLength s1 OR push_bit 8 (unat hi))"
    using a(3) by (simp add: s1 length_le)
  have fd: "feed s [lo, hi] = processFirmwareByte s1 hi"
    by (simp add: s1_def)
  show "parserState (processFirmwareByte s lo) = WAIT_LEN_HIGH"
    using st by (simp add: s1_def)
  show "parserState (feed s [lo, hi]) = WAIT_COMMAND"
    unfolding fd using st big by (rule step_oversized)
  show "printData (feed s [lo, hi]) \<in> {printData s, []}"
    unfolding fd using step_oversized(2) [OF st big] by (simp add: pd)
  show "canvases (feed s [lo, hi]) = canvases s"
    unfolding fd using step_oversized(3) [OF st big] by (simp add: cv)
next
  assume a: "parserState s = WAIT_COMMAND"
  have len: "(208::nat) OR push_bit 8 7 = 2000"
    by simp
  show "parserState (feed s [0x04]) = WAIT_COMPRESSION"
    using a by (simp add: processFirmwareByte_quiet parseByte_eq validCommands_def Let_def)
  show "parserState (feed s [0x04, 0x00]) = WAIT_LEN_LOW"
    using a by (simp add: processFirmwareByte_quiet parseByte_eq validCommands_def Let_def)
  show "parserState (feed s [0x04, 0x00, 0xD0]) = WAIT_LEN_HIGH"
    using a by (simp add: processFirmwareByte_quiet parseByte_eq validCommands_def Let_def)
  show "parserState (feed s [0x04, 0x00, 0xD0, 0x07]) = WAIT_COMMAND"
    using a by (simp add: processFirmwareByte_quiet parseByte_eq validCommands_def Let_def len)
  show "printData (feed s [0x04, 0x00, 0xD0, 0x07]) = printData s"
    using a by (simp add: processFirmwareByte_quiet parseByte_eq validCommands_def Let_def len)
  show "canvases (feed s [0x04, 0x00, 0xD0, 0x07]) = canvases s"
    using a by (simp add: processFirmwareByte_quiet parseByte_eq validCommands_def Let_def len)
qed

text \<open>The four cases on the states a new printer reaches while a data packet of declared length 2000 arrives.\<close>

theorem desync_recovery_witness:
  "parserState (feed new_printer [0x04]) = WAIT_COMPRESSION \<and>
   parserState (processFirmwareByte (feed new_printer [0x04]) 0x07) = WAIT_COMMAND \<and>
   parserState (feed new_printer [0x04, 0x00, 0xD0]) = WAIT_LEN_HIGH \<and>
   1000 < (currentLength (feed new_printer [0x04, 0x00, 0xD0]) OR push_bit 8 (unat (0x07 :: byte))) \<and>
   parserState (processFirmwareByte (feed new_printer [0x04, 0x00, 0xD0]) 0x07) = WAIT_COMMAND \<and>
   parserState (feed new_printer [0x04, 0x00]) = WAIT_LEN_LOW \<and>
   1000 < unat (0xD0 :: byte) + 256 * unat (0x07 :: byte) \<and>
   parserState (feed (feed new_printer [0x04, 0x00]) [0xD0, 0x07]) = WAIT_COMMAND \<and>
   parserState new_printer = WAIT_COMMAND \<and>
   parserState (feed new_printer [0x04, 0x00, 0xD0, 0x07]) = WAIT_COMMAND"
proof -
  have 1: "parserState (feed new_printer [0x04]) = WAIT_COMPRESSION"
    by (simp add: run)
  have 2: "parserState (feed new_printer [0x04, 0x00, 0xD0]) = WAIT_LEN_HIGH"
    by (simp add: run)
  have 3: "1000 < (currentLength (feed new_printer [0x04, 0x00, 0xD0]) OR push_bit 8 (unat (0x07 :: byte)))"
    by (simp add: run)
  have 4: "parserState (feed new_printer [0x04, 0x00]) = WAIT_LEN_LOW"
    by (simp add: run)
  have 5: "parserState new_printer = WAIT_COMMAND"
    by (simp add: run)
  have 6: "1000 < unat (0xD0 :: byte) + 256 * unat (0x07 :: byte)"
    by simp
  show ?thesis
    using desync_recovery [of "feed new_printer [0x04]" "0x07"]
      desync_recovery [of "feed new_printer [0x04, 0x00, 0xD0]" "0x07"]
      desync_recovery [of "feed new_printer [0x04, 0x00]" _ "0xD0" "0x07"]
      desync_recovery [of new_printer]
      1 2 3 4 5 6
    by simp
qed

text \<open>
  Claim C9. The command byte of an Init packet, accepted in \<open>WAIT_COMMAND\<close>, empties the
  print buffer at once, before the rest of the packet arrives. If the next byte is not a
  valid compression flag the packet is dropped (the parser is back in \<open>WAIT_COMMAND\<close> and
  nothing was rendered), and the print buffer is empty all the same.
\<close>

theorem init_clears_early:
  assumes "parserState s = WAIT_COMMAND" and "byte \<noteq> 0x00" and "byte \<noteq> 0x01"
  shows "printData (processFirmwareByte s 0x01) = [] \<and>
         parserState (processFirmwareByte s 0x01) = WAIT_COMPRESSION \<and>
         printData (feed s [0x01, byte]) = [] \<and>
         parserState (feed s [0x01, byte]) = WAIT_COMMAND \<and>
         canvases (feed s [0x01, byte]) = canvases s"
proof -
  define s1 where "s1 = processFirmwareByte s 0x01"
  have s1: "s1 = s\<lparr>recentBytes := pushRecent (recentBytes s) 0x01, currentCommand := 0x01,
      parserState := WAIT_COMPRESSION, printData := []\<rparr>"
    unfolding s1_def using assms(1)
    by (simp add: processFirmwareByte_quiet parseByte_eq validCommands_def Let_def)
  have st: "parserState s1 = WAIT_COMPRESSION" and pd: "printData s1 = []"
    and cv: "canvases s1 = canvases s"
    by (simp_all add: s1)
  have fd: "feed s [0x01, byte] = processFirmwareByte s1 byte"
    by (simp add: s1_def)
  have "printData (processFirmwareByte s1 byte) \<in> {printData s1, []}"
    using st assms(2,3) by (rule step_bad_compression)
  then have "printData (feed s [0x01, byte]) = []"
    unfolding fd by (simp add: pd)
  moreover have "parserState (feed s [0x01, byte]) = WAIT_COMMAND"
    unfolding fd using st assms(2,3) by (rule step_bad_compression)
  moreover have "canvases (feed s [0x01, byte]) = canvases s"
    unfolding fd using step_bad_compression(3) [OF st assms(2,3)] by (simp add: cv)
  ultimately show ?thesis
    using st pd by (simp add: s1_def)
qed

text \<open>A printer holding one byte of print data receives \<^verbatim>\<open>01 07\<close>.\<close>

theorem init_clears_early_witness:
  "parserState (feed new_printer [0x04, 0x00, 0x01, 0x00, 0xAA]) = WAIT_COMMAND \<and>
   printData (feed new_printer [0x04, 0x00, 0x01, 0x00, 0xAA]) = [0xAA] \<and>
   printData (processFirmwareByte (feed new_printer [0x04, 0x00, 0x01, 0x00, 0xAA]) 0x01) = [] \<and>
   printData (feed (feed new_printer [0x04, 0x00, 0x01, 0x00, 0xAA]) [0x01, 0x07]) = [] \<and>
   parserState (feed (feed new_printer [0x04, 0x00, 0x01, 0x00, 0xAA]) [0x01, 0x07]) = WAIT_COMMAND"
proof -
  have 1: "parserState (feed new_printer [0x04, 0x00, 0x01, 0x00, 0xAA]) = WAIT_COMMAND"
    by (simp add: run)
  have 2: "printData (feed new_printer [0x04, 0x00, 0x01, 0x00, 0xAA]) = [0xAA]"
    by (simp add: run)
  show ?thesis
    using init_clears_early [of "feed new_printer [0x04, 0x00, 0x01, 0x00, 0xAA]" "0x07"] 1 2
    by simp
qed

section \<open>The abort marker and the reset triggers\<close>

lemma recentBytes_processPacket: "recentBytes (processPacket s) = recentBytes s"
  by (simp add: processPacket_def)

lemma recentBytes_parseByte: "recentBytes (parseByte s byte) = recentBytes s"
  by (cases "parserState s")
    (auto simp add: parseByte_eq Let_def recentBytes_processPacket renderImage_def
      split: sum.splits)

lemma window_history:
  "pushRecent (drop (length h - 10) h) b = drop (length (h @ [b]) - 10) (h @ [b])"
proof (cases "length h < 10")
  case True
  then show ?thesis by (simp add: pushRecent_def)
next
  case False
  then have "drop (length h - 10) h \<noteq> []" "Suc (length h) - 10 = Suc (length h - 10)"
    by auto
  with False show ?thesis
    by (simp add: pushRecent_def Let_def drop_Suc tl_drop)
qed

lemma window_is_marker:
  "drop (length h - 10) h = abortMarker \<longleftrightarrow> suffix abortMarker h"
proof
  assume "drop (length h - 10) h = abortMarker"
  then show "suffix abortMarker h"
    by (metis suffix_drop)
next
  assume "suffix abortMarker h"
  then obtain p where "h = p @ abortMarker"
    by (auto simp add: suffix_def)
  then show "drop (length h - 10) h = abortMarker"
    by (simp add: abortMarker_def)
qed

lemma step_history:
  assumes "recentBytes s = drop (length h - 10) h"
  shows "processFirmwareByte s b =
     (if suffix abortMarker (h @ [b]) then
        s\<lparr>printData := [], currentPacketData := [], recentBytes := [],
          parserState := WAIT_COMMAND\<rparr>
      else parseByte (s\<lparr>recentBytes := drop (length (h @ [b]) - 10) (h @ [b])\<rparr>) b)"
  unfolding processFirmwareByte_eq assms window_history window_is_marker ..

lemma feed_quiet:
  assumes "recentBytes s = drop (length h - 10) h"
    and "\<And>p. p \<noteq> [] \<Longrightarrow> prefix p bs \<Longrightarrow> \<not> suffix abortMarker (h @ p)"
  shows "feed s bs = foldl quietStep s bs \<and>
         recentBytes (feed s bs) = drop (length (h @ bs) - 10) (h @ bs)"
  using assms
proof (induction bs arbitrary: s h)
  case Nil
  then show ?case by simp
next
  case (Cons b bs)
  have nb: "\<not> suffix abortMarker (h @ [b])"
    using Cons.prems(2) [of "[b]"] by simp
  have "processFirmwareByte s b =
      parseByte (s\<lparr>recentBytes := drop (length (h @ [b]) - 10) (h @ [b])\<rparr>) b"
    using nb by (simp only: step_history [OF Cons.prems(1)] if_False)
  also have "\<dots> = quietStep s b"
    by (simp only: quietStep_def Cons.prems(1) window_history)
  finally have st: "processFirmwareByte s b = quietStep s b" .
  have rb: "recentBytes (quietStep s b) = drop (length (h @ [b]) - 10) (h @ [b])"
    by (simp add: quietStep_def recentBytes_parseByte Cons.prems(1) window_history)
  have ih: "feed (quietStep s b) bs = foldl quietStep (quietStep s b) bs \<and>
      recentBytes (feed (quietStep s b) bs) = drop (length ((h @ [b]) @ bs) - 10) ((h @ [b]) @ bs)"
  proof (rule Cons.IH [OF rb])
    fix p :: "byte list"
    assume "p \<noteq> []" "prefix p bs"
    then have "prefix (b # p) (b # bs)" by simp
    then have "\<not> suffix abortMarker (h @ b # p)"
      by (intro Cons.prems(2)) simp_all
    then show "\<not> suffix abortMarker ((h @ [b]) @ p)" by simp
  qed
  have e: "(h @ [b]) @ bs = h @ b # bs"
    by simp
  show ?case
    unfolding feed.simps foldl_Cons st using ih unfolding e .
qed

lemma no_early_abort:
  assumes "p \<noteq> []" and "prefix p [0x41, 0x42, 0x4F, 0x52, 0x54, 0x50, 0x52, 0x49, 0x4E :: byte]"
  shows "\<not> suffix abortMarker (w @ p)"
  using assms
  by (auto simp add: prefix_Cons suffix_to_prefix abortMarker_def)

lemma abort_resets:
  assumes "length (recentBytes s) \<le> 10"
  shows "\<exists>t. feed s abortMarker =
     t\<lparr>printData := [], currentPacketData := [], recentBytes := [], parserState := WAIT_COMMAND\<rparr>"
proof -
  let ?w = "recentBytes s"
  let ?pre = "[0x41, 0x42, 0x4F, 0x52, 0x54, 0x50, 0x52, 0x49, 0x4E :: byte]"
  have w: "?w = drop (length ?w - 10) ?w"
    using assms by simp
  have rb: "recentBytes (feed s ?pre) = drop (length (?w @ ?pre) - 10) (?w @ ?pre)"
    using feed_quiet [OF w, of ?pre] no_early_abort by blast
  have split: "feed s abortMarker = processFirmwareByte (feed s ?pre) 0x54"
    by (simp add: abortMarker_def)
  have "suffix abortMarker ((?w @ ?pre) @ [0x54])"
    by (simp add: abortMarker_def suffix_def)
  then show ?thesis
    unfolding split step_history [OF rb] by auto
qed

lemma pushRecent_length: "length rb \<le> 10 \<Longrightarrow> length (pushRecent rb b) \<le> 10"
  by (simp add: pushRecent_def Let_def)

lemma step_window_bounded:
  "length (recentBytes s) \<le> 10 \<Longrightarrow> length (recentBytes (processFirmwareByte s b)) \<le> 10"
  by (simp add: processFirmwareByte_eq recentBytes_parseByte pushRecent_length)

lemma feed_window_bounded:
  "length (recentBytes s) \<le> 10 \<Longrightarrow> length (recentBytes (feed s bs)) \<le> 10"
  by (induction bs arbitrary: s) (simp_all add: step_window_bounded)

text \<open>
  Claim C3. With the parser in \<open>READ_DATA\<close> on a partly read data packet, whatever the
  print buffer holds and however many payload bytes are still due, the ten bytes
  \<^verbatim>\<open>ABORTPRINT\<close> empty the print buffer and the packet data, put the parser in
  \<open>WAIT_COMMAND\<close> and empty the marker window. The window holds at most 10 bytes, as it
  does in every state reached from a new printer (\<open>feed_window_bounded\<close>).
\<close>

theorem abort_mid_payload:
  assumes "parserState s = READ_DATA" and "currentCommand s = DATA"
    and "currentDataIndex s < currentLength s"
    and "length (recentBytes s) \<le> 10"
  shows "printData (feed s [0x41, 0x42, 0x4F, 0x52, 0x54, 0x50, 0x52, 0x49, 0x4E, 0x54]) = [] \<and>
         currentPacketData (feed s [0x41, 0x42, 0x4F, 0x52, 0x54, 0x50, 0x52, 0x49, 0x4E, 0x54]) = [] \<and>
         parserState (feed s [0x41, 0x42, 0x4F, 0x52, 0x54, 0x50, 0x52, 0x49, 0x4E, 0x54]) = WAIT_COMMAND \<and>
         recentBytes (feed s [0x41, 0x42, 0x4F, 0x52, 0x54, 0x50, 0x52, 0x49, 0x4E, 0x54]) = []"
proof -
  obtain t where "feed s abortMarker =
      t\<lparr>printData := [], currentPacketData := [], recentBytes := [], parserState := WAIT_COMMAND\<rparr>"
    using abort_resets [OF assms(4)] by blast
  then show ?thesis
    by (simp add: abortMarker_def)
qed

text \<open>A printer with one byte of print data, two bytes into a data packet of length 5.\<close>

theorem abort_mid_payload_witness:
  "parserState (feed new_printer [0x04, 0x00, 0x01, 0x00, 0xAA, 0x04, 0x00, 0x05, 0x00, 0x11, 0x22]) = READ_DATA \<and>
   currentCommand (feed new_printer [0x04, 0x00, 0x01, 0x00, 0xAA, 0x04, 0x00, 0x05, 0x00, 0x11, 0x22]) = DATA \<and>
   currentDataIndex (feed new_printer [0x04, 0x00, 0x01, 0x00, 0xAA, 0x04, 0x00, 0x05, 0x00, 0x11, 0x22]) = 2 \<and>
   currentLength (feed new_printer [0x04, 0x00, 0x01, 0x00, 0xAA, 0x04, 0x00, 0x05, 0x00, 0x11, 0x22]) = 5 \<and>
   printData (feed new_printer [0x04, 0x00, 0x01, 0x00, 0xAA, 0x04, 0x00, 0x05, 0x00, 0x11, 0x22]) = [0xAA] \<and>
   length (recentBytes (feed new_printer [0x04, 0x00, 0x01, 0x00, 0xAA, 0x04, 0x00, 0x05, 0x00, 0x11, 0x22])) = 10 \<and>
   printData (feed (feed new_printer [0x04, 0x00, 0x01, 0x00, 0xAA, 0x04, 0x00, 0x05, 0x00, 0x11, 0x22])
       [0x41, 0x42, 0x4F, 0x52, 0x54, 0x50, 0x52, 0x49, 0x4E, 0x54]) = [] \<and>
   parserState (feed (feed new_printer [0x04, 0x00, 0x01, 0x00, 0xAA, 0x04, 0x00, 0x05, 0x00, 0x11, 0x22])
       [0x41, 0x42, 0x4F, 0x52, 0x54, 0x50, 0x52, 0x49, 0x4E, 0x54]) = WAIT_COMMAND \<and>
   recentBytes (feed (feed new_printer [0x04, 0x00, 0x01, 0x00, 0xAA, 0x04, 0x00, 0x05, 0x00, 0x11, 0x22])
       [0x41, 0x42, 0x4F, 0x52, 0x54, 0x50, 0x52, 0x49, 0x4E, 0x54]) = []"
proof -
  define s0 where "s0 = feed new_printer [0x04, 0x00, 0x01, 0x00, 0xAA, 0x04, 0x00, 0x05, 0x00, 0x11, 0x22]"
  have s0: "s0 = new_printer\<lparr>printData := [0xAA], parserState := READ_DATA, currentCommand := DATA,
      currentCompression := 0, currentLength := 5, currentDataIndex := 2,
      currentPacketData := [0x11, 0x22],
      recentBytes := [0x00, 0x01, 0x00, 0xAA, 0x04, 0x00, 0x05, 0x00, 0x11, 0x22]\<rparr>"
    unfolding s0_def by (simp add: run pushRecent_def)
  have h: "parserState s0 = READ_DATA" "currentCommand s0 = DATA"
    "currentDataIndex s0 < currentLength s0" "length (recentBytes s0) \<le> 10"
    by (simp_all add: s0)
  show ?thesis
    using abort_mid_payload [OF h] unfolding s0_def [symmetric] by (simp add: s0)
qed

lemma suffix_skip:
  assumes "x \<notin> set m" and "suffix m (a @ x # q)"
  shows "suffix m q"
proof -
  from assms(2) have "suffix m ((a @ [x]) @ q)" by simp
  then consider "suffix m q" | m' where "suffix m' (a @ [x])" "m = m' @ q"
    unfolding suffix_append by blast
  then show ?thesis
  proof cases
    case 1
    then show ?thesis .
  next
    case 2
    show ?thesis
    proof (cases "m' = []")
      case True
      with 2 show ?thesis by simp
    next
      case False
      with 2(1) have "last m' = x"
        by (auto simp add: suffix_def) (metis last_appendR last_snoc)
      with False 2(2) assms(1) show ?thesis
        by (metis Un_iff last_in_set set_append)
    qed
  qed
qed

lemma marker_bytes: "b \<in> set abortMarker \<Longrightarrow> 0x41 \<le> unat b"
  by (auto simp add: abortMarker_def)

lemma packet_quiet:
  assumes c: "c = 0x00 \<or> c = 0x01" and hi: "unat lo + 256 * unat hi \<le> 1000"
    and pl: "\<not> sublist abortMarker payload"
    and p: "p \<noteq> []" "prefix p ([0x01, c, lo, hi] @ payload)"
  shows "\<not> suffix abortMarker (w @ p)"
proof
  assume sf: "suffix abortMarker (w @ p)"
  have hi': "hi \<notin> set abortMarker"
    using marker_bytes [of hi] hi by auto
  from p consider "p = [0x01]" | "p = [0x01, c]" | "p = [0x01, c, lo]"
    | q where "p = [0x01, c, lo, hi] @ q" "prefix q payload"
    by (auto simp add: prefix_Cons)
  then show False
  proof cases
    case 1
    with sf show False by (simp add: suffix_to_prefix abortMarker_def)
  next
    case 2
    with sf c show False by (auto simp add: suffix_to_prefix abortMarker_def)
  next
    case 3
    with sf c show False by (auto simp add: suffix_to_prefix abortMarker_def)
  next
    case 4
    from sf have "suffix abortMarker ((w @ [0x01, c, lo]) @ hi # q)"
      by (simp add: 4(1))
    with hi' have "suffix abortMarker q"
      by (rule suffix_skip)
    then have "sublist abortMarker q"
      by (rule suffix_imp_sublist)
    with 4(2) have "sublist abortMarker payload"
      using prefix_imp_sublist sublist_order.order_trans by blast
    with pl show False ..
  qed
qed

lemma read_init_payload:
  assumes "parserState s = READ_DATA" and "currentCommand s = INIT"
    and "currentDataIndex s + length q = currentLength s" and "q \<noteq> []"
    and "recentBytes s = drop (length h - 10) h"
    and "\<And>p. p \<noteq> [] \<Longrightarrow> prefix p q \<Longrightarrow> \<not> suffix abortMarker (h @ p)"
  shows "parserState (feed s q) = WAIT_COMMAND \<and> printData (feed s q) = []"
  using assms
proof (induction q arbitrary: s h)
  case Nil
  then show ?case by simp
next
  case (Cons b q)
  have nb: "\<not> suffix abortMarker (h @ [b])"
    using Cons.prems(6) [of "[b]"] by simp
  have st: "processFirmwareByte s b =
      parseByte (s\<lparr>recentBytes := drop (length (h @ [b]) - 10) (h @ [b])\<rparr>) b"
    using nb by (simp only: step_history [OF Cons.prems(5)] if_False)
  show ?case
  proof (cases "q = []")
    case True
    with Cons.prems(1,2,3) show ?thesis
      by (simp add: st parseByte_eq Let_def processPacket_def)
  next
    case False
    let ?s' = "processFirmwareByte s b"
    have s': "?s' = s\<lparr>recentBytes := drop (length (h @ [b]) - 10) (h @ [b]),
        currentPacketData := currentPacketData s @ [b],
        currentDataIndex := currentDataIndex s + 1\<rparr>"
    proof -
      have "\<not> currentLength s \<le> currentDataIndex s + 1"
        using Cons.prems(3) False by (cases q) auto
      then show ?thesis
        using Cons.prems(1) by (simp add: st parseByte_eq Let_def)
    qed
    have "parserState (feed ?s' q) = WAIT_COMMAND \<and> printData (feed ?s' q) = []"
    proof (rule Cons.IH [where h = "h @ [b]"])
      show "parserState ?s' = READ_DATA" "currentCommand ?s' = INIT"
        "currentDataIndex ?s' + length q = currentLength ?s'"
        "recentBytes ?s' = drop (length (h @ [b]) - 10) (h @ [b])"
        using Cons.prems(1,2,3) by (simp_all add: s')
      show "q \<noteq> []" by (rule False)
      fix p :: "byte list"
      assume "p \<noteq> []" "prefix p q"
      then have "\<not> suffix abortMarker (h @ b # p)"
        by (intro Cons.prems(6)) simp_all
      then show "\<not> suffix abortMarker ((h @ [b]) @ p)" by simp
    qed
    then show ?thesis by simp
  qed
qed

lemma init_packet_resets:
  assumes wc: "parserState s = WAIT_COMMAND" and w: "length (recentBytes s) \<le> 10"
    and c: "c = 0x00 \<or> c = 0x01"
    and len: "length payload = unat lo + 256 * unat hi" "unat lo + 256 * unat hi \<le> 1000"
    and pl: "\<not> sublist abortMarker payload"
  shows "parserState (feed s ([0x01, c, lo, hi] @ payload)) = WAIT_COMMAND \<and>
         printData (feed s ([0x01, c, lo, hi] @ payload)) = []"
proof -
  let ?w = "recentBytes s"
  let ?hd = "[0x01, c, lo, hi]"
  have hist: "?w = drop (length ?w - 10) ?w"
    using w by simp
  have quiet: "\<not> suffix abortMarker (?w @ p)" if "p \<noteq> []" "prefix p (?hd @ payload)" for p
    using c len(2) pl that by (rule packet_quiet)
  have "feed s ?hd = foldl quietStep s ?hd \<and>
      recentBytes (feed s ?hd) = drop (length (?w @ ?hd) - 10) (?w @ ?hd)"
  proof (rule feed_quiet [OF hist])
    fix p :: "byte list"
    assume "p \<noteq> []" "prefix p ?hd"
    then show "\<not> suffix abortMarker (?w @ p)"
      by (intro quiet prefix_prefix)
  qed
  then have fd: "feed s ?hd = foldl quietStep s ?hd"
    and rb: "recentBytes (feed s ?hd) = drop (length (?w @ ?hd) - 10) (?w @ ?hd)"
    by blast+
  define s1 where "s1 = quietStep s 0x01"
  define s2 where "s2 = quietStep s1 c"
  define s3 where "s3 = quietStep s2 lo"
  define s4 where "s4 = quietStep s3 hi"
  have s4_feed: "s4 = feed s ?hd"
    unfolding fd by (simp add: s4_def s3_def s2_def s1_def)
  have s1: "parserState s1 = WAIT_COMPRESSION" "printData s1 = []" "currentCommand s1 = INIT"
    unfolding s1_def using wc
    by (simp_all add: quietStep_def parseByte_eq validCommands_def Let_def)
  have s2: "parserState s2 = WAIT_LEN_LOW" "printData s2 = []" "currentCommand s2 = INIT"
    unfolding s2_def using s1 c
    by (auto simp add: quietStep_def parseByte_eq)
  have s3: "parserState s3 = WAIT_LEN_HIGH" "printData s3 = []" "currentCommand s3 = INIT"
    "currentLength s3 = unat lo"
    unfolding s3_def using s2
    by (simp_all add: quietStep_def parseByte_eq)
  have L: "currentLength s3 OR push_bit 8 (unat hi) = length payload"
    by (simp only: s3(4) length_le len(1))
  have s4: "parserState s4 = (if length payload = 0 then WAIT_COMMAND else READ_DATA)"
    "printData s4 = []" "currentCommand s4 = INIT" "currentDataIndex s4 = 0"
    "currentLength s4 = length payload"
    unfolding s4_def using s3(1,2,3) len L
    by (simp_all add: quietStep_def parseByte_eq Let_def processPacket_def)
  have "feed s (?hd @ payload) = feed (feed s ?hd) payload"
    by simp
  then have split: "feed s (?hd @ payload) = feed s4 payload"
    by (simp only: s4_feed)
  show ?thesis
  proof (cases "payload = []")
    case True
    with s4 show ?thesis unfolding split by simp
  next
    case False
    have "parserState (feed s4 payload) = WAIT_COMMAND \<and> printData (feed s4 payload) = []"
    proof (rule read_init_payload [where h = "?w @ ?hd"])
      show "parserState s4 = READ_DATA" "currentCommand s4 = INIT"
        "currentDataIndex s4 + length payload = currentLength s4"
        using False s4 by simp_all
      show "payload \<noteq> []" by (rule False)
      show "recentBytes s4 = drop (length (?w @ ?hd) - 10) (?w @ ?hd)"
        unfolding s4_feed by (rule rb)
      fix p :: "byte list"
      assume "p \<noteq> []" "prefix p payload"
      then have "\<not> suffix abortMarker (?w @ ?hd @ p)"
        by (intro quiet) simp_all
      then show "\<not> suffix abortMarker ((?w @ ?hd) @ p)" by simp
    qed
    then show ?thesis by (simp only: split)
  qed
qed

lemma start_marker_resets:
  assumes "parserState s = WAIT_COMMAND"
  shows "parserState (processFirmwareByte s 0xFF) = WAIT_COMMAND"
    and "printData (processFirmwareByte s 0xFF) = []"
  using assms by (simp_all add: processFirmwareByte_quiet parseByte_eq)

lemma print_timeout_resets:
  assumes "length (printData s) > 0" and "lastDataTime s > 0" and "now - lastDataTime s > 2000"
  shows "parserState (readFailed s now) = WAIT_COMMAND"
    and "printData (readFailed s now) = []"
  using assms by (simp_all add: readFailed_def PRINT_TIMEOUT_MS_def Let_def)

text \<open>
  Claim C1 as stated fails. In \<open>READ_DATA\<close> the byte \<^verbatim>\<open>FF\<close> and the bytes of an Init
  packet are payload: the parser stays in \<open>READ_DATA\<close> and the print buffer keeps its
  byte. A read timeout with an empty print buffer changes nothing: the parser stays in
  \<open>READ_DATA\<close>.
\<close>

theorem reset_triggers_counterexample:
  "parserState (processFirmwareByte
      (feed new_printer [0x04, 0x00, 0x01, 0x00, 0xAA, 0x04, 0x00, 0x05, 0x00]) 0xFF) = READ_DATA \<and>
   printData (processFirmwareByte
      (feed new_printer [0x04, 0x00, 0x01, 0x00, 0xAA, 0x04, 0x00, 0x05, 0x00]) 0xFF) = [0xAA] \<and>
   parserState (feed (feed new_printer [0x04, 0x00, 0x01, 0x00, 0xAA, 0x04, 0x00, 0x05, 0x00])
      [0x01, 0x00, 0x00, 0x00]) = READ_DATA \<and>
   printData (feed (feed new_printer [0x04, 0x00, 0x01, 0x00, 0xAA, 0x04, 0x00, 0x05, 0x00])
      [0x01, 0x00, 0x00, 0x00]) = [0xAA] \<and>
   printData (chunkReceived new_printer 1000 [0x04, 0x00, 0x05, 0x00]) = [] \<and>
   parserState (readFailed (chunkReceived new_printer 1000 [0x04, 0x00, 0x05, 0x00]) 5000) = READ_DATA"
  by (simp add: run chunk readFailed_def)

text \<open>
  Claim C1, amended. The ten bytes \<^verbatim>\<open>ABORTPRINT\<close> leave the parser in \<open>WAIT_COMMAND\<close>
  with an empty print buffer from every state (the window holding at most 10 bytes).
  The start marker \<^verbatim>\<open>FF\<close> does so when the parser is in \<open>WAIT_COMMAND\<close>. So does a
  complete Init packet received in \<open>WAIT_COMMAND\<close>: the command byte, a compression flag
  0 or 1, a little-endian length of at most 1000 and that many payload bytes, the abort
  marker not occurring in the payload. The read timeout does so when the print buffer
  is not empty, data was received before, and more than 2000 ms have passed since;
  otherwise it changes nothing.
\<close>

theorem reset_triggers:
  "(length (recentBytes s) \<le> 10 \<longrightarrow>
      parserState (feed s abortMarker) = WAIT_COMMAND \<and> printData (feed s abortMarker) = []) \<and>
   (parserState s = WAIT_COMMAND \<longrightarrow>
      parserState (processFirmwareByte s 0xFF) = WAIT_COMMAND \<and>
      printData (processFirmwareByte s 0xFF) = []) \<and>
   (parserState s = WAIT_COMMAND \<and> length (recentBytes s) \<le> 10 \<and> (c = 0x00 \<or> c = 0x01) \<and>
    length payload = unat lo + 256 * unat hi \<and> unat lo + 256 * unat hi \<le> 1000 \<and>
    \<not> sublist abortMarker payload \<longrightarrow>
      parserState (feed s ([0x01, c, lo, hi] @ payload)) = WAIT_COMMAND \<and>
      printData (feed s ([0x01, c, lo, hi] @ payload)) = []) \<and>
   (length (printData s) > 0 \<and> lastDataTime s > 0 \<and> now - lastDataTime s > 2000 \<longrightarrow>
      parserState (readFailed s now) = WAIT_COMMAND \<and> printData (readFailed s now) = []) \<and>
   (printData s = [] \<or> lastDataTime s \<le> 0 \<or> now - lastDataTime s \<le> 2000 \<longrightarrow>
      readFailed s now = s)"
proof (intro conjI impI; (elim conjE)?)
  assume w: "length (recentBytes s) \<le> 10"
  then obtain t where t: "feed s abortMarker =
      t\<lparr>printData := [], currentPacketData := [], recentBytes := [], parserState := WAIT_COMMAND\<rparr>"
    using abort_resets by blast
  show "parserState (feed s abortMarker) = WAIT_COMMAND"
    by (simp add: t)
  show "printData (feed s abortMarker) = []"
    by (simp add: t)
next
  assume wc: "parserState s = WAIT_COMMAND"
  show "parserState (processFirmwareByte s 0xFF) = WAIT_COMMAND"
    using wc by (rule start_marker_resets)
  show "printData (processFirmwareByte s 0xFF) = []"
    using wc by (rule start_marker_resets)
next
  assume a: "parserState s = WAIT_COMMAND" "length (recentBytes s) \<le> 10" "c = 0x00 \<or> c = 0x01"
    "length payload = unat lo + 256 * unat hi" "unat lo + 256 * unat hi \<le> 1000"
    "\<not> sublist abortMarker payload"
  show "parserState (feed s ([0x01, c, lo, hi] @ payload)) = WAIT_COMMAND"
    using init_packet_resets [OF a] by (rule conjunct1)
  show "printData (feed s ([0x01, c, lo, hi] @ payload)) = []"
    using init_packet_resets [OF a] by (rule conjunct2)
next
  assume a: "length (printData s) > 0" "lastDataTime s > 0" "now - lastDataTime s > 2000"
  show "parserState (readFailed s now) = WAIT_COMMAND"
    using a by (rule print_timeout_resets)
  show "printData (readFailed s now) = []"
    using a by (rule print_timeout_resets)
next
  assume "printData s = [] \<or> lastDataTime s \<le> 0 \<or> now - lastDataTime s \<le> 2000"
  then show "readFailed s now = s"
    by (auto simp add: readFailed_def PRINT_TIMEOUT_MS_def Let_def)
qed

text \<open>
  The four triggers on states a new printer reaches: mid-payload for the abort marker,
  between packets with one byte of print data for the others.
\<close>

theorem reset_triggers_witness:
  "length (recentBytes (feed new_printer [0x04, 0x00, 0x01, 0x00, 0xAA, 0x04, 0x00, 0x05, 0x00, 0x11])) \<le> 10 \<and>
   parserState (feed new_printer [0x04, 0x00, 0x01, 0x00, 0xAA, 0x04, 0x00, 0x05, 0x00, 0x11]) = READ_DATA \<and>
   printData (feed new_printer [0x04, 0x00, 0x01, 0x00, 0xAA, 0x04, 0x00, 0x05, 0x00, 0x11]) = [0xAA] \<and>
   parserState (feed (feed new_printer [0x04, 0x00, 0x01, 0x00, 0xAA, 0x04, 0x00, 0x05, 0x00, 0x11])
      abortMarker) = WAIT_COMMAND \<and>
   printData (feed (feed new_printer [0x04, 0x00, 0x01, 0x00, 0xAA, 0x04, 0x00, 0x05, 0x00, 0x11])
      abortMarker) = [] \<and>
   parserState (feed new_printer [0x04, 0x00, 0x01, 0x00, 0xAA]) = WAIT_COMMAND \<and>
   printData (feed new_printer [0x04, 0x00, 0x01, 0x00, 0xAA]) = [0xAA] \<and>
   length (recentBytes (feed new_printer [0x04, 0x00, 0x01, 0x00, 0xAA])) \<le> 10 \<and>
   printData (processFirmwareByte (feed new_printer [0x04, 0x00, 0x01, 0x00, 0xAA]) 0xFF) = [] \<and>
   length [0x11, 0x22 :: byte] = unat (0x02 :: byte) + 256 * unat (0x00 :: byte) \<and>
   \<not> sublist abortMarker [0x11, 0x22] \<and>
   parserState (feed (feed new_printer [0x04, 0x00, 0x01, 0x00, 0xAA])
      ([0x01, 0x00, 0x02, 0x00] @ [0x11, 0x22])) = WAIT_COMMAND \<and>
   printData (feed (feed new_printer [0x04, 0x00, 0x01, 0x00, 0xAA])
      ([0x01, 0x00, 0x02, 0x00] @ [0x11, 0x22])) = [] \<and>
   printData (chunkReceived new_printer 1000 [0x04, 0x00, 0x01, 0x00, 0xAA]) = [0xAA] \<and>
   lastDataTime (chunkReceived new_printer 1000 [0x04, 0x00, 0x01, 0x00, 0xAA]) = 1000 \<and>
   parserState (readFailed (chunkReceived new_printer 1000 [0x04, 0x00, 0x01, 0x00, 0xAA]) 4000)
     = WAIT_COMMAND \<and>
   printData (readFailed (chunkReceived new_printer 1000 [0x04, 0x00, 0x01, 0x00, 0xAA]) 4000) = [] \<and>
   4000 - lastDataTime (chunkReceived new_printer 3000 [0x04, 0x00, 0x01, 0x00, 0xAA]) \<le> 2000 \<and>
   readFailed (chunkReceived new_printer 3000 [0x04, 0x00, 0x01, 0x00, 0xAA]) 4000 =
     chunkReceived new_printer 3000 [0x04, 0x00, 0x01, 0x00, 0xAA]"
proof -
  define se where "se = chunkReceived new_printer 3000 [0x04, 0x00, 0x01, 0x00, 0xAA]"
  have se: "4000 - lastDataTime se \<le> 2000"
    unfolding se_def by (simp add: chunk run)
  define sa where "sa = feed new_printer [0x04, 0x00, 0x01, 0x00, 0xAA, 0x04, 0x00, 0x05, 0x00, 0x11]"
  define sb where "sb = feed new_printer [0x04, 0x00, 0x01, 0x00, 0xAA]"
  define sd where "sd = chunkReceived new_printer 1000 [0x04, 0x00, 0x01, 0x00, 0xAA]"
  have sa: "length (recentBytes sa) \<le> 10" "parserState sa = READ_DATA" "printData sa = [0xAA]"
    unfolding sa_def by (simp_all add: run pushRecent_def)
  have sb: "parserState sb = WAIT_COMMAND" "printData sb = [0xAA]" "length (recentBytes sb) \<le> 10"
    unfolding sb_def by (simp_all add: run pushRecent_def)
  have pk: "length [0x11, 0x22 :: byte] = unat (0x02 :: byte) + 256 * unat (0x00 :: byte)"
    "unat (0x02 :: byte) + 256 * unat (0x00 :: byte) \<le> 1000"
    "\<not> sublist abortMarker [0x11, 0x22]"
    by (simp_all add: abortMarker_def sublist_code)
  have sd: "printData sd = [0xAA]" "lastDataTime sd = 1000"
    unfolding sd_def by (simp_all add: chunk run)
  then have sd': "length (printData sd) > 0" "lastDataTime sd > 0" "4000 - lastDataTime sd > 2000"
    by simp_all
  show ?thesis
    unfolding sa_def [symmetric] sb_def [symmetric] sd_def [symmetric] se_def [symmetric]
    using reset_triggers [of sa]
      reset_triggers [of sb "0x00" "[0x11, 0x22]" "0x02" "0x00"]
      reset_triggers [of sd _ _ _ _ 4000]
      reset_triggers [of se _ _ _ _ 4000]
      sa sb pk sd sd' se
    by simp
qed

section \<open>Image reconstruction\<close>

lemma colorIndex_bits:
  "colorIndex byte1 byte2 n = of_bool (bit byte1 n) + 2 * of_bool (bit byte2 n)"
proof -
  have 1: "drop_bit n byte1 AND 1 = of_bool (bit byte1 n)"
    by (simp add: and_one_eq bit_iff_odd_drop_bit mod_2_eq_odd)
  have 2: "drop_bit n byte2 AND 1 = of_bool (bit byte2 n)"
    by (simp add: and_one_eq bit_iff_odd_drop_bit mod_2_eq_odd)
  show ?thesis
    unfolding colorIndex_def 1 2 by (cases "bit byte1 n"; cases "bit byte2 n") simp_all
qed

lemma colorIndex_less: "colorIndex byte1 byte2 n < 4"
  by (simp add: colorIndex_bits)

lemma plot_length: "length (plot b1 b2 W sx sy row px col) = length px"
  by (simp add: plot_def Let_def)

lemma plot_other:
  "k div 4 \<noteq> (sy + row) * W + (sx + col) \<Longrightarrow> plot b1 b2 W sx sy row px col ! k = px ! k"
  by (auto simp add: plot_def Let_def nth_list_update)

lemma plot_here:
  assumes "((sy + row) * W + (sx + col)) * 4 + 3 < length px" and "j < 4"
  shows "plot b1 b2 W sx sy row px col ! (((sy + row) * W + (sx + col)) * 4 + j) =
     [PALETTE ! colorIndex b1 b2 (7 - col) ! 0, PALETTE ! colorIndex b1 b2 (7 - col) ! 1,
      PALETTE ! colorIndex b1 b2 (7 - col) ! 2, 255] ! j"
proof -
  from assms(2) consider "j = 0" | "j = 1" | "j = 2" | "j = 3" by linarith
  then show ?thesis
    using assms(1) by cases (simp_all add: plot_def Let_def nth_list_update add.assoc)
qed

lemma cols_length: "length (foldl (plot b1 b2 W sx sy row) px cols) = length px"
  by (induction cols arbitrary: px) (simp_all add: plot_length)

lemma cols_other:
  "(\<And>col. col \<in> set cols \<Longrightarrow> k div 4 \<noteq> (sy + row) * W + (sx + col)) \<Longrightarrow>
   foldl (plot b1 b2 W sx sy row) px cols ! k = px ! k"
  by (induction cols arbitrary: px) (simp_all add: plot_other)

lemma cols_here:
  assumes "col \<in> set cols" and "distinct cols"
    and "((sy + row) * W + (sx + col)) * 4 + 3 < length px" and "j < 4"
  shows "foldl (plot b1 b2 W sx sy row) px cols ! (((sy + row) * W + (sx + col)) * 4 + j) =
     [PALETTE ! colorIndex b1 b2 (7 - col) ! 0, PALETTE ! colorIndex b1 b2 (7 - col) ! 1,
      PALETTE ! colorIndex b1 b2 (7 - col) ! 2, 255] ! j"
  using assms(1,2)
proof (induction cols rule: rev_induct)
  case Nil
  then show ?case by simp
next
  case (snoc c cols)
  let ?k = "((sy + row) * W + (sx + col)) * 4 + j"
  have kd: "?k div 4 = (sy + row) * W + (sx + col)"
    using assms(4) by simp
  show ?case
  proof (cases "c = col")
    case True
    have "((sy + row) * W + (sx + col)) * 4 + 3 < length (foldl (plot b1 b2 W sx sy row) px cols)"
      using assms(3) by (simp add: cols_length)
    then have "plot b1 b2 W sx sy row (foldl (plot b1 b2 W sx sy row) px cols) col ! ?k =
        [PALETTE ! colorIndex b1 b2 (7 - col) ! 0, PALETTE ! colorIndex b1 b2 (7 - col) ! 1,
         PALETTE ! colorIndex b1 b2 (7 - col) ! 2, 255] ! j"
      using assms(4) by (rule plot_here)
    then show ?thesis
      using True by simp
  next
    case False
    then have "?k div 4 \<noteq> (sy + row) * W + (sx + c)"
      unfolding kd by simp
    then have "plot b1 b2 W sx sy row (foldl (plot b1 b2 W sx sy row) px cols) c ! ?k =
        foldl (plot b1 b2 W sx sy row) px cols ! ?k"
      by (rule plot_other)
    moreover have "col \<in> set cols" "distinct cols"
      using snoc.prems False by auto
    ultimately show ?thesis
      using snoc.IH by simp
  qed
qed


lemma decodeRow_length: "length (decodeRow data off W sx sy px row) = length px"
  by (simp add: decodeRow_def Let_def cols_length)

lemma pixel_index_neq:
  assumes "x < W" and "x' < W" and "y \<noteq> y'"
  shows "y * W + x \<noteq> y' * W + (x' :: nat)"
proof
  assume e: "y * W + x = y' * W + x'"
  have "(y * W + x) div W = y" "(y' * W + x') div W = y'"
    using assms(1,2) by simp_all
  with e assms(3) show False by simp
qed

lemma decodeRow_other:
  assumes "row' \<noteq> row" and "sx + 8 \<le> W" and "col < 8" and "j < 4"
  shows "decodeRow data off W sx sy px row' ! (((sy + row) * W + (sx + col)) * 4 + j) =
         px ! (((sy + row) * W + (sx + col)) * 4 + j)"
  unfolding decodeRow_def Let_def
proof (rule cols_other)
  fix c
  assume "c \<in> set [0..<8]"
  then have "sx + c < W" "sx + col < W"
    using assms(2,3) by auto
  moreover have "sy + row \<noteq> sy + row'"
    using assms(1) by simp
  ultimately have "(sy + row) * W + (sx + col) \<noteq> (sy + row') * W + (sx + c)"
    by (intro pixel_index_neq)
  moreover have "(((sy + row) * W + (sx + col)) * 4 + j) div 4 = (sy + row) * W + (sx + col)"
    using assms(4) by simp
  ultimately show "(((sy + row) * W + (sx + col)) * 4 + j) div 4 \<noteq> (sy + row') * W + (sx + c)"
    by simp
qed

lemma decodeRow_here:
  assumes "col < 8" and "((sy + row) * W + (sx + col)) * 4 + 3 < length px" and "j < 4"
  shows "decodeRow data off W sx sy px row ! (((sy + row) * W + (sx + col)) * 4 + j) =
     [PALETTE ! colorIndex (read_or_zero data (off + row * 2))
                  (read_or_zero data (off + row * 2 + 1)) (7 - col) ! 0,
      PALETTE ! colorIndex (read_or_zero data (off + row * 2))
                  (read_or_zero data (off + row * 2 + 1)) (7 - col) ! 1,
      PALETTE ! colorIndex (read_or_zero data (off + row * 2))
                  (read_or_zero data (off + row * 2 + 1)) (7 - col) ! 2, 255] ! j"
  unfolding decodeRow_def Let_def
  using assms by (intro cols_here) simp_all

lemma rows_length: "length (foldl (decodeRow data off W sx sy) px rows) = length px"
  by (induction rows arbitrary: px) (simp_all add: decodeRow_length)

lemma rows_here:
  assumes "row \<in> set rows" and "distinct rows" and "col < 8" and "sx + 8 \<le> W"
    and "((sy + row) * W + (sx + col)) * 4 + 3 < length px" and "j < 4"
  shows "foldl (decodeRow data off W sx sy) px rows ! (((sy + row) * W + (sx + col)) * 4 + j) =
     [PALETTE ! colorIndex (read_or_zero data (off + row * 2))
                  (read_or_zero data (off + row * 2 + 1)) (7 - col) ! 0,
      PALETTE ! colorIndex (read_or_zero data (off + row * 2))
                  (read_or_zero data (off + row * 2 + 1)) (7 - col) ! 1,
      PALETTE ! colorIndex (read_or_zero data (off + row * 2))
                  (read_or_zero data (off + row * 2 + 1)) (7 - col) ! 2, 255] ! j"
  using assms(1,2)
proof (induction rows rule: rev_induct)
  case Nil
  then show ?case by simp
next
  case (snoc r rows)
  let ?k = "((sy + row) * W + (sx + col)) * 4 + j"
  let ?px = "foldl (decodeRow data off W sx sy) px rows"
  show ?case
  proof (cases "r = row")
    case True
    have "((sy + row) * W + (sx + col)) * 4 + 3 < length ?px"
      using assms(5) by (simp add: rows_length)
    with assms(3) have "decodeRow data off W sx sy ?px row ! ?k =
      [PALETTE ! colorIndex (read_or_zero data (off + row * 2))
                  (read_or_zero data (off + row * 2 + 1)) (7 - col) ! 0,
       PALETTE ! colorIndex (read_or_zero data (off + row * 2))
                  (read_or_zero data (off + row * 2 + 1)) (7 - col) ! 1,
       PALETTE ! colorIndex (read_or_zero data (off + row * 2))
                  (read_or_zero data (off + row * 2 + 1)) (7 - col) ! 2, 255] ! j"
      using assms(6) by (rule decodeRow_here)
    then show ?thesis
      using True by simp
  next
    case False
    then have "decodeRow data off W sx sy ?px r ! ?k = ?px ! ?k"
      using assms(4,3,6) by (rule decodeRow_other)
    moreover have "row \<in> set rows" "distinct rows"
      using snoc.prems False by auto
    ultimately show ?thesis
      using snoc.IH by simp
  qed
qed

lemma tile_byte:
  assumes "take 16 (drop off data) = replicate 16 v" and "k < 16"
  shows "read_or_zero data (off + k) = v"
proof -
  have "length (take 16 (drop off data)) = 16"
    by (simp add: assms(1))
  then have len: "off + k < length data"
    using assms(2) by simp
  then have "data ! (off + k) = take 16 (drop off data) ! k"
    using assms(2) by simp
  also have "\<dots> = v"
    using assms(2) by (simp add: assms(1))
  finally show ?thesis
    using len by (simp add: read_or_zero_def)
qed

lemma colorIndex_zero: "colorIndex 0 0 n = 0"
  by (simp add: colorIndex_bits)

lemma colorIndex_ones: "n < 8 \<Longrightarrow> colorIndex 0xFF 0xFF n = 3"
proof -
  assume "n < 8"
  moreover have "(0xFF :: byte) = - 1" by simp
  ultimately have "bit (0xFF :: byte) n"
    by (simp only: bit_minus_1_iff possible_bit_word) simp
  then show ?thesis
    by (simp add: colorIndex_bits)
qed

lemma decodeTile_nth:
  assumes "row < 8" and "col < 8" and "sx + 8 \<le> W"
    and "((sy + 7) * W + (sx + 7)) * 4 + 3 < length px" and "j < 4"
  shows "decodeTile data off px W sx sy ! (((sy + row) * W + (sx + col)) * 4 + j) =
     [PALETTE ! colorIndex (read_or_zero data (off + row * 2))
                  (read_or_zero data (off + row * 2 + 1)) (7 - col) ! 0,
      PALETTE ! colorIndex (read_or_zero data (off + row * 2))
                  (read_or_zero data (off + row * 2 + 1)) (7 - col) ! 1,
      PALETTE ! colorIndex (read_or_zero data (off + row * 2))
                  (read_or_zero data (off + row * 2 + 1)) (7 - col) ! 2, 255] ! j"
proof -
  define A B where "A = (sy + row) * W" and "B = (sy + 7) * W"
  have "A \<le> B"
    unfolding A_def B_def using assms(1) by (intro mult_le_mono1) simp
  moreover have "(B + (sx + 7)) * 4 + 3 < length px"
    unfolding B_def by (rule assms(4))
  ultimately have "(A + (sx + col)) * 4 + 3 < length px"
    using assms(2) by simp
  then have "((sy + row) * W + (sx + col)) * 4 + 3 < length px"
    unfolding A_def .
  moreover have "row \<in> set [0..<8]" "distinct [0..<8]"
    using assms(1) by simp_all
  ultimately show ?thesis
    unfolding decodeTile_def using assms(2,3,5) by (intro rows_here)
qed

text \<open>
  Claim C8. For every tile placed inside the image, the pixel in row \<open>row\<close> and column
  \<open>col\<close> of the tile is decoded from the two bytes \<open>lo\<close>, \<open>hi\<close> of that row at bit
  position \<open>7 - col\<close>: its colour index is the bit of \<open>lo\<close> plus twice the bit of
  \<open>hi\<close>, its colour the entry of the palette white, light grey, dark grey, black
  (255, 170, 85, 0), stored opaque. A tile of sixteen zero bytes gives white pixels, a
  tile of sixteen \<^verbatim>\<open>FF\<close> bytes black ones.
\<close>

theorem decodeTile_pixels:
  assumes "row < 8" and "col < 8" and "startX + 8 \<le> imageWidth"
    and "((startY + 7) * imageWidth + (startX + 7)) * 4 + 3 < length px"
  shows "(let lo = read_or_zero data (offset + row * 2);
              hi = read_or_zero data (offset + row * 2 + 1);
              color = PALETTE ! colorIndex lo hi (7 - col)
          in rgba (decodeTile data offset px imageWidth startX startY) imageWidth
               (startX + col) (startY + row) = [color ! 0, color ! 1, color ! 2, 255] \<and>
             colorIndex lo hi (7 - col) = of_bool (bit lo (7 - col)) + 2 * of_bool (bit hi (7 - col))) \<and>
         PALETTE = [[255, 255, 255], [170, 170, 170], [85, 85, 85], [0, 0, 0]] \<and>
         (take 16 (drop offset data) = replicate 16 0x00 \<longrightarrow>
            rgba (decodeTile data offset px imageWidth startX startY) imageWidth
              (startX + col) (startY + row) = [255, 255, 255, 255]) \<and>
         (take 16 (drop offset data) = replicate 16 0xFF \<longrightarrow>
            rgba (decodeTile data offset px imageWidth startX startY) imageWidth
              (startX + col) (startY + row) = [0, 0, 0, 255])"
proof -
  let ?lo = "read_or_zero data (offset + row * 2)"
  let ?hi = "read_or_zero data (offset + row * 2 + 1)"
  let ?c = "PALETTE ! colorIndex ?lo ?hi (7 - col)"
  let ?out = "decodeTile data offset px imageWidth startX startY"
  have nth: "?out ! (((startY + row) * imageWidth + (startX + col)) * 4 + j) =
      [?c ! 0, ?c ! 1, ?c ! 2, 255] ! j" if "j < 4" for j
    using assms that by (rule decodeTile_nth)
  have px: "rgba ?out imageWidth (startX + col) (startY + row) = [?c ! 0, ?c ! 1, ?c ! 2, 255]"
    using nth [of 0] nth [of 1] nth [of 2] nth [of 3] by (simp add: rgba_def Let_def)
  have k: "row * 2 < 16" "row * 2 + 1 < 16"
    using assms(1) by simp_all
  have zero: "rgba ?out imageWidth (startX + col) (startY + row) = [255, 255, 255, 255]"
    if "take 16 (drop offset data) = replicate 16 0x00"
  proof -
    have "?lo = 0" "?hi = 0"
      using tile_byte [OF that k(1)] tile_byte [OF that k(2)] by (simp_all add: add.assoc)
    then show ?thesis
      by (simp add: px colorIndex_zero PALETTE_def)
  qed
  have ones: "rgba ?out imageWidth (startX + col) (startY + row) = [0, 0, 0, 255]"
    if "take 16 (drop offset data) = replicate 16 0xFF"
  proof -
    have "?lo = 0xFF" "?hi = 0xFF"
      using tile_byte [OF that k(1)] tile_byte [OF that k(2)] by (simp_all add: add.assoc)
    moreover have "7 - col < 8" by simp
    ultimately show ?thesis
      by (simp add: px colorIndex_ones PALETTE_def)
  qed
  show ?thesis
    using px zero ones by (simp add: Let_def colorIndex_bits PALETTE_def)
qed

text \<open>
  A pixel of the second and of the first tile of a 160 pixel wide image, on data made of
  a black tile followed by a white one.
\<close>

theorem decodeTile_pixels_witness:
  "(3 :: nat) < 8 \<and> (5 :: nat) < 8 \<and> (8 :: nat) + 8 \<le> 160 \<and>
   ((0 + 7) * 160 + (8 + 7)) * 4 + 3 < length (replicate (160 * 8 * 4) (0 :: byte)) \<and>
   take 16 (drop 16 (replicate 16 0xFF @ replicate 16 0x00)) = replicate 16 (0x00 :: byte) \<and>
   rgba (decodeTile (replicate 16 0xFF @ replicate 16 0x00) 16 (replicate (160 * 8 * 4) 0) 160 8 0)
     160 (8 + 5) (0 + 3) = [255, 255, 255, 255] \<and>
   take 16 (drop 0 (replicate 16 0xFF @ replicate 16 0x00)) = replicate 16 (0xFF :: byte) \<and>
   rgba (decodeTile (replicate 16 0xFF @ replicate 16 0x00) 0 (replicate (160 * 8 * 4) 0) 160 0 0)
     160 (0 + 5) (0 + 3) = [0, 0, 0, 255]"
  using decodeTile_pixels [of 3 5 8 160 0 "replicate (160 * 8 * 4) 0"
      "replicate 16 0xFF @ replicate 16 0x00" 16]
    decodeTile_pixels [of 3 5 0 160 0 "replicate (160 * 8 * 4) 0"
      "replicate 16 0xFF @ replicate 16 0x00" 0]
  by simp

lemma totalTiles_div: "totalTiles_of data = length data div 16"
proof -
  have "\<lfloor>real (length data) / real 16\<rfloor> = int (length data div 16)"
    by (rule floor_divide_of_nat_eq)
  then show ?thesis
    by (simp add: totalTiles_of_def)
qed

lemma ceiling_twenty: "\<lceil>real t / 20\<rceil> = int ((t + 19) div 20)"
proof -
  have "\<lceil>real_of_int (int t) / real_of_int 20\<rceil> = - (- int t div 20)"
    by (rule ceiling_divide_eq_div)
  moreover have "- (- int t div 20) = int ((t + 19) div 20)"
    by (simp add: zdiv_int)
  ultimately show ?thesis by simp
qed

lemma tileRows_div: "tileRows_of data = (totalTiles_of data + 19) div 20"
  by (simp add: tileRows_of_def ceiling_twenty)

lemma tileRow_fst:
  "ti \<le> T \<Longrightarrow> fst (tileRow data T W ty xs (ti, px)) = min T (ti + length xs)"
proof (induction xs arbitrary: ti px)
  case Nil
  then show ?case by simp
next
  case (Cons x xs)
  show ?case
  proof (cases "ti \<ge> T")
    case True
    with Cons.prems show ?thesis by simp
  next
    case False
    then have "ti + 1 \<le> T" by simp
    then have "fst (tileRow data T W ty xs (ti + 1, decodeTile data (ti * 16) px W (x * 8) (ty * 8)))
        = min T (ti + 1 + length xs)"
      by (rule Cons.IH)
    with False show ?thesis by simp
  qed
qed

lemma rows_fst:
  "ti \<le> T \<Longrightarrow>
   fst (foldl (\<lambda>st ty. tileRow data T W ty [0..<20] st) (ti, px) ys) = min T (ti + 20 * length ys)"
proof (induction ys arbitrary: ti px)
  case Nil
  then show ?case by simp
next
  case (Cons y ys)
  obtain ti' px' where st: "tileRow data T W y [0..<20] (ti, px) = (ti', px')"
    by (cases "tileRow data T W y [0..<20] (ti, px)")
  have ti': "ti' = min T (ti + 20)"
    using tileRow_fst [OF Cons.prems, of data W y "[0..<20]" px] by (simp add: st)
  then have "ti' \<le> T" by simp
  then have "fst (foldl (\<lambda>st ty. tileRow data T W ty [0..<20] st) (ti', px') ys) =
      min T (ti' + 20 * length ys)"
    by (rule Cons.IH)
  then show ?case
    unfolding foldl_Cons st using ti' by simp
qed

lemma renderTiles_count: "fst (renderTiles data) = totalTiles_of data"
proof -
  have "totalTiles_of data \<le> 20 * ((totalTiles_of data + 19) div 20)"
    by presburger
  then show ?thesis
    by (simp add: renderTiles_def Let_def rows_fst tileRows_div)
qed

lemma decodeRow_cong:
  assumes "\<And>k. k < 16 \<Longrightarrow> read_or_zero d (off + k) = read_or_zero d' (off + k)" and "row < 8"
  shows "decodeRow d off W sx sy px row = decodeRow d' off W sx sy px row"
proof -
  have "row * 2 < 16" "row * 2 + 1 < 16"
    using assms(2) by simp_all
  then have "read_or_zero d (off + row * 2) = read_or_zero d' (off + row * 2)"
    "read_or_zero d (off + (row * 2 + 1)) = read_or_zero d' (off + (row * 2 + 1))"
    by (simp_all only: assms(1))
  then show ?thesis
    by (simp add: decodeRow_def add.assoc)
qed

lemma decodeTile_cong:
  assumes "\<And>k. k < 16 \<Longrightarrow> read_or_zero d (off + k) = read_or_zero d' (off + k)"
  shows "decodeTile d off px W sx sy = decodeTile d' off px W sx sy"
  unfolding decodeTile_def
proof (rule foldl_cong [OF refl refl])
  fix a row
  assume "row \<in> set [0..<8]"
  then have "row < 8" by simp
  with assms show "decodeRow d off W sx sy a row = decodeRow d' off W sx sy a row"
    by (rule decodeRow_cong)
qed

lemma tileRow_cong:
  assumes "\<And>i. i < 16 * T \<Longrightarrow> read_or_zero d i = read_or_zero d' i"
  shows "tileRow d T W ty xs st = tileRow d' T W ty xs st"
proof (induction xs arbitrary: st)
  case Nil
  show ?case by simp
next
  case (Cons x xs)
  obtain ti px where st: "st = (ti, px)"
    by (cases st)
  show ?case
  proof (cases "ti \<ge> T")
    case True
    then show ?thesis by (simp add: st)
  next
    case False
    have "decodeTile d (ti * 16) px W (x * 8) (ty * 8) = decodeTile d' (ti * 16) px W (x * 8) (ty * 8)"
    proof (rule decodeTile_cong)
      fix k :: nat
      assume "k < 16"
      with False have "ti * 16 + k < 16 * T" by simp
      then show "read_or_zero d (ti * 16 + k) = read_or_zero d' (ti * 16 + k)"
        by (rule assms)
    qed
    with False show ?thesis
      by (simp add: st Cons.IH)
  qed
qed

lemma read_take: "i < n \<Longrightarrow> read_or_zero (take n d) i = read_or_zero d i"
  by (simp add: read_or_zero_def)

lemma totalTiles_take: "totalTiles_of (take (16 * totalTiles_of data) data) = totalTiles_of data"
proof -
  have "16 * (length data div 16) \<le> length data"
    by simp
  then have "length (take (16 * (length data div 16)) data) = 16 * (length data div 16)"
    by simp
  then show ?thesis
    by (simp add: totalTiles_div)
qed

lemma renderTiles_take: "renderTiles (take (16 * totalTiles_of data) data) = renderTiles data"
proof -
  let ?d = "take (16 * totalTiles_of data) data"
  have "foldl (\<lambda>st tileY. tileRow ?d (totalTiles_of data) 160 tileY [0..<20] st) st0 ys =
      foldl (\<lambda>st tileY. tileRow data (totalTiles_of data) 160 tileY [0..<20] st) st0 ys" for st0 ys
  proof (rule foldl_cong [OF refl refl])
    fix a x
    show "tileRow ?d (totalTiles_of data) 160 x [0..<20] a =
        tileRow data (totalTiles_of data) 160 x [0..<20] a"
      by (rule tileRow_cong) (rule read_take)
  qed
  then show ?thesis
    by (simp add: renderTiles_def Let_def totalTiles_take tileRows_of_def)
qed

lemma decodeTile_length: "length (decodeTile data off px W sx sy) = length px"
  by (simp add: decodeTile_def rows_length)

lemma tileRow_length: "length (snd (tileRow data T W ty xs st)) = length (snd st)"
proof (induction xs arbitrary: st)
  case Nil
  show ?case by simp
next
  case (Cons x xs)
  obtain ti px where st: "st = (ti, px)"
    by (cases st)
  show ?case
    by (simp add: st Cons.IH decodeTile_length)
qed

lemma tileRows_length:
  "length (snd (foldl (\<lambda>st ty. tileRow data T W ty xs st) st ys)) = length (snd st)"
  by (induction ys arbitrary: st) (simp_all add: tileRow_length)

lemma renderTiles_length: "length (snd (renderTiles data)) = 160 * (tileRows_of data * 8) * 4"
  by (simp add: renderTiles_def Let_def tileRows_length)

lemma renderCanvas_short: "length data < 16 \<Longrightarrow> renderCanvas data = Inl IndexSizeError"
  by (simp add: renderCanvas_def Let_def tileRows_div totalTiles_div)

lemma renderCanvas_image:
  assumes "16 \<le> length data"
  shows "renderCanvas data =
     Inr \<lparr>width = 160, height = tileRows_of data * 8, pixels = snd (renderTiles data)\<rparr>"
proof -
  have "1 \<le> length data div 16"
    using assms by (simp add: Suc_le_eq div_greater_zero_iff)
  then have "0 < (length data div 16 + 19) div 20"
    by (simp add: div_greater_zero_iff)
  then show ?thesis
    by (simp add: renderCanvas_def Let_def tileRows_div totalTiles_div)
qed

text \<open>
  On a buffer of at least 16 bytes the image is produced: the number of tiles is the
  length divided by 16, rounded down, the number of tile rows that number divided by 20,
  rounded up, the image is 160 pixels wide and 8 pixels high per tile row, with four
  bytes per pixel; the loops decode exactly that many tiles. On every buffer the bytes
  after the last complete tile change nothing.
\<close>

lemma render_dimensions:
  assumes "16 \<le> length data"
  shows "\<exists>c. renderCanvas data = Inr c \<and>
           width c = 20 * 8 \<and> height c = tileRows_of data * 8 \<and>
           length (pixels c) = width c * height c * 4"
    and "totalTiles_of data = length data div 16"
    and "int (tileRows_of data) = \<lceil>real (totalTiles_of data) / 20\<rceil>"
    and "tileRows_of data = (totalTiles_of data + 19) div 20"
    and "fst (renderTiles data) = totalTiles_of data"
proof -
  show "\<exists>c. renderCanvas data = Inr c \<and>
           width c = 20 * 8 \<and> height c = tileRows_of data * 8 \<and>
           length (pixels c) = width c * height c * 4"
    by (simp add: renderCanvas_image [OF assms] renderTiles_length)
  show "totalTiles_of data = length data div 16"
    by (rule totalTiles_div)
  show "int (tileRows_of data) = \<lceil>real (totalTiles_of data) / 20\<rceil>"
    by (simp add: tileRows_of_def ceiling_twenty)
  show "tileRows_of data = (totalTiles_of data + 19) div 20"
    by (rule tileRows_div)
  show "fst (renderTiles data) = totalTiles_of data"
    by (rule renderTiles_count)
qed

lemma renderCanvas_take: "renderCanvas (take (16 * totalTiles_of data) data) = renderCanvas data"
  by (simp add: renderCanvas_def renderTiles_take tileRows_of_def totalTiles_take)

text \<open>
  Claim C7 fails on the code for a buffer of 1 to 15 bytes. Such a buffer has no complete
  tile, hence no tile row and the height 0, and \<^verbatim>\<open>createImageData(160, 0)\<close> throws: no
  image is produced, where the claim has an image 160 pixels wide and 0 pixels high.
  Three bytes of print data arrive in a data packet; on the print marker \<^verbatim>\<open>FE\<close> the call
  of \<^verbatim>\<open>processFirmwareByte\<close> ends in the exception, no canvas is appended, the three
  bytes stay in the print buffer, and the rest of the chunk is not processed.
\<close>

theorem render_short_buffer:
  "renderCanvas (take 15 data) = Inl IndexSizeError \<and>
   renderCanvas [0x11, 0x22, 0x33] = Inl IndexSizeError \<and>
   parserState (feed new_printer [0x04, 0x00, 0x03, 0x00, 0x11, 0x22, 0x33]) = WAIT_COMMAND \<and>
   printData (feed new_printer [0x04, 0x00, 0x03, 0x00, 0x11, 0x22, 0x33]) = [0x11, 0x22, 0x33] \<and>
   processFirmwareByte_call (feed new_printer [0x04, 0x00, 0x03, 0x00, 0x11, 0x22, 0x33]) 0xFE =
     Inl (IndexSizeError,
          (feed new_printer [0x04, 0x00, 0x03, 0x00, 0x11, 0x22, 0x33])
            \<lparr>recentBytes := [0x04, 0x00, 0x03, 0x00, 0x11, 0x22, 0x33, 0xFE]\<rparr>) \<and>
   printData (processFirmwareByte (feed new_printer [0x04, 0x00, 0x03, 0x00, 0x11, 0x22, 0x33]) 0xFE) =
     [0x11, 0x22, 0x33] \<and>
   canvases (processFirmwareByte (feed new_printer [0x04, 0x00, 0x03, 0x00, 0x11, 0x22, 0x33]) 0xFE) = [] \<and>
   chunkReceived_call new_printer 1000 [0x04, 0x00, 0x03, 0x00, 0x11, 0x22, 0x33, 0xFE, 0x04] =
     Inl (IndexSizeError,
          (feed new_printer [0x04, 0x00, 0x03, 0x00, 0x11, 0x22, 0x33])
            \<lparr>recentBytes := [0x04, 0x00, 0x03, 0x00, 0x11, 0x22, 0x33, 0xFE],
              lastDataTime := 1000, totalBytesReceived := 7\<rparr>)"
proof -
  define s0 where "s0 = feed new_printer [0x04, 0x00, 0x03, 0x00, 0x11, 0x22, 0x33]"
  have s0: "s0 = new_printer\<lparr>printData := [0x11, 0x22, 0x33], currentCommand := DATA,
      currentCompression := 0, currentLength := 3, currentDataIndex := 3,
      currentPacketData := [0x11, 0x22, 0x33],
      recentBytes := [0x04, 0x00, 0x03, 0x00, 0x11, 0x22, 0x33]\<rparr>"
    unfolding s0_def by (simp add: run pushRecent_def)
  have short: "renderCanvas [0x11, 0x22, 0x33] = Inl IndexSizeError"
    by (rule renderCanvas_short) simp
  have call: "processFirmwareByte_call s0 0xFE =
      Inl (IndexSizeError, s0\<lparr>recentBytes := [0x04, 0x00, 0x03, 0x00, 0x11, 0x22, 0x33, 0xFE]\<rparr>)"
    by (simp add: s0 processFirmwareByte_call_def parseByte_call_def renderImage_def short
        pushRecent_def isAbort_iff abortMarker_def new_printer_def)
  have after: "processFirmwareByte s0 0xFE =
      s0\<lparr>recentBytes := [0x04, 0x00, 0x03, 0x00, 0x11, 0x22, 0x33, 0xFE]\<rparr>"
    by (simp add: processFirmwareByte_def call stateAfter_def)
  have loop: "chunkReceived_call new_printer 1000 [0x04, 0x00, 0x03, 0x00, 0x11, 0x22, 0x33, 0xFE, 0x04] =
      Inl (IndexSizeError, s0\<lparr>recentBytes := [0x04, 0x00, 0x03, 0x00, 0x11, 0x22, 0x33, 0xFE],
        lastDataTime := 1000, totalBytesReceived := 7\<rparr>)"
    by (simp add: chunkReceived_call_def processFirmwareByte_call_def parseByte_call_def
        renderImage_def short pushRecent_def isAbort_iff abortMarker_def validCommands_def
        processPacket_def Let_def s0 new_printer_def)
  have every: "renderCanvas (take 15 data) = Inl IndexSizeError"
    by (rule renderCanvas_short) simp
  show ?thesis
    unfolding s0_def [symmetric] using every short call loop
    by (simp add: after) (simp add: s0 new_printer_def)
qed

end
